theory Spec2Isabelle
  imports Main "HOL-Library.Sublist" "HOL-Library.AList"
begin

section \<open>What JavaScript throws\<close>

text \<open>
  A JavaScript \<^verbatim>\<open>throw\<close> or a rejected promise carries a value: an \<^verbatim>\<open>Error\<close> with its
  message, or any other value. A function that may throw returns \<open>thrown + 'a\<close>.
\<close>

datatype thrown = Error (message: string) | Thrown

text \<open>
  Reading a property of \<^verbatim>\<open>undefined\<close>, or calling \<^verbatim>\<open>undefined\<close>, throws a \<^verbatim>\<open>TypeError\<close>.
\<close>

definition TypeError :: thrown where
  "TypeError = Error ''TypeError: Cannot read properties of undefined''"

section \<open>The pseudo-terminal manager (init-service, pty.ts)\<close>

text \<open>
  \<^verbatim>\<open>TerminalManager\<close> keeps \<^verbatim>\<open>sessions: { [id: string]: { terminal: IPty, replId: string } }\<close>,
  a plain object that starts as \<^verbatim>\<open>{}\<close>. The map \<open>sessions\<close> holds the sessions that were
  assigned to the object, each under its key. An assignment \<^verbatim>\<open>this.sessions[id] = s\<close>
  makes an own property of the object, with one exception: under the key \<^verbatim>\<open>__proto__\<close> it
  goes to the setter that the object inherits, which makes \<open>s\<close> the prototype of the
  object, and \<^verbatim>\<open>this.sessions["__proto__"]\<close> yields \<open>s\<close> from then on. So the entry of the
  map under \<^verbatim>\<open>__proto__\<close> is the prototype that was assigned, and every other entry is an
  own property. A terminal is known by the pid of its shell process, which is also all that
  the manager reads of it (\<^verbatim>\<open>term.pid\<close>).

  Around the map stands what the calls of the manager act on: the shell processes that
  were forked and have not ended (\<open>live\<close>), the data written to terminals and the output
  handed to the \<^verbatim>\<open>onData\<close> callbacks.
\<close>

type_synonym pid = nat

record session =
  terminal :: pid
  replId :: string

record pty_state =
  sessions :: "string \<rightharpoonup> session"
  live :: "pid set"
  written :: "(pid \<times> string) list"
  emitted :: "(pid \<times> string) list"

text \<open>The constructor: \<^verbatim>\<open>this.sessions = {}\<close>, and no process yet.\<close>

definition TerminalManager_new :: pty_state where
  "TerminalManager_new = \<lparr>sessions = Map.empty, live = {}, written = [], emitted = []\<rparr>"

text \<open>
  \<^verbatim>\<open>delete this.sessions[term.pid]\<close> uses a number as a property key: the key is the
  decimal numeral of the pid.
\<close>

definition digit_char :: "nat \<Rightarrow> char" where
  "digit_char d = ''0123456789'' ! d"

fun String_of_nat :: "nat \<Rightarrow> string" where
  "String_of_nat n =
     (if n < 10 then [digit_char n] else String_of_nat (n div 10) @ [digit_char (n mod 10)])"

declare String_of_nat.simps [simp del]

text \<open>
  \<^verbatim>\<open>createPty(id, replId, onData)\<close>: \<^verbatim>\<open>fork\<close> starts a shell, whose pid \<open>p\<close> the
  operating system chooses; the session is stored under \<open>id\<close>. Nothing is read from
  \<^verbatim>\<open>this.sessions\<close> and no process is signalled. The two listeners of the new terminal
  are \<open>on_data\<close> and \<open>on_exit\<close> below.
\<close>

definition createPty :: "string \<Rightarrow> string \<Rightarrow> pid \<Rightarrow> pty_state \<Rightarrow> pty_state" where
  "createPty ident rid p st =
     st\<lparr>live := insert p (live st),
        sessions := (sessions st)(ident \<mapsto> \<lparr>terminal = p, replId = rid\<rparr>)\<rparr>"

text \<open>\<^verbatim>\<open>term.on('data', (data) => onData(data, term.pid))\<close>\<close>

definition on_data :: "pid \<Rightarrow> string \<Rightarrow> pty_state \<Rightarrow> pty_state" where
  "on_data p data st = st\<lparr>emitted := emitted st @ [(p, data)]\<rparr>"

text \<open>
  \<^verbatim>\<open>term.on('exit', () => { delete this.sessions[term.pid]; })\<close>: the own property under
  the numeral goes, if there is one.
\<close>

definition on_exit :: "pid \<Rightarrow> pty_state \<Rightarrow> pty_state" where
  "on_exit p st = st\<lparr>sessions := (sessions st)(String_of_nat p := None)\<rparr>"

text \<open>The shell process \<open>p\<close> ends, and its terminal fires the \<^verbatim>\<open>exit\<close> listener.\<close>

definition process_exit :: "pid \<Rightarrow> pty_state \<Rightarrow> pty_state" where
  "process_exit p st = on_exit p (st\<lparr>live := live st - {p}\<rparr>)"

text \<open>
  The property lookup \<^verbatim>\<open>this.sessions[k]\<close>. Where no session was assigned under the key,
  the lookup goes on along the prototype chain. \<^verbatim>\<open>Object.prototype\<close> is always on it, with
  its methods, \<^verbatim>\<open>constructor\<close> and the accessor \<^verbatim>\<open>__proto__\<close>; a session that was assigned
  as the prototype comes before it, with its properties \<^verbatim>\<open>terminal\<close> and \<^verbatim>\<open>replId\<close>. What
  the lookup finds there is no session: a function, \<^verbatim>\<open>Object.prototype\<close> itself, a terminal
  or a string, none of them \<^verbatim>\<open>null\<close> or \<^verbatim>\<open>undefined\<close>, and none with a property
  \<^verbatim>\<open>terminal\<close>.
\<close>

datatype property = Undefined | Session session | Inherited

definition Object_prototype_keys :: "string list" where
  "Object_prototype_keys =
     [''constructor'', ''__defineGetter__'', ''__defineSetter__'', ''hasOwnProperty'',
      ''__lookupGetter__'', ''__lookupSetter__'', ''isPrototypeOf'', ''propertyIsEnumerable'',
      ''toString'', ''valueOf'', ''__proto__'', ''toLocaleString'']"

definition inherited_keys :: "pty_state \<Rightarrow> string list" where
  "inherited_keys st =
     Object_prototype_keys
     @ (case sessions st ''__proto__'' of None \<Rightarrow> [] | Some s \<Rightarrow> [''terminal'', ''replId''])"

definition get_session :: "pty_state \<Rightarrow> string \<Rightarrow> property" where
  "get_session st k =
     (case sessions st k of
        Some s \<Rightarrow> Session s
      | None \<Rightarrow> if k \<in> set (inherited_keys st) then Inherited else Undefined)"

text \<open>
  \<^verbatim>\<open>delete this.sessions[k]\<close> removes an own property. The prototype is none, so under the
  key \<^verbatim>\<open>__proto__\<close> nothing is removed.
\<close>

definition delete_session :: "string \<Rightarrow> pty_state \<Rightarrow> pty_state" where
  "delete_session k st =
     (if k = ''__proto__'' then st else st\<lparr>sessions := (sessions st)(k := None)\<rparr>)"

text \<open>
  \<^verbatim>\<open>write(terminalId, data)\<close>:
  \<^verbatim>\<open>this.sessions[terminalId]?.terminal.write(data)\<close>.
  The optional chain ends with \<^verbatim>\<open>undefined\<close> where the lookup yields \<^verbatim>\<open>undefined\<close>. Where it
  yields a session, the data goes to its terminal. Where it yields an inherited value,
  \<^verbatim>\<open>.terminal\<close> of that value is \<^verbatim>\<open>undefined\<close> and reading \<^verbatim>\<open>.write\<close> of it throws. A call
  that throws has changed nothing.
\<close>

definition write_pty :: "string \<Rightarrow> string \<Rightarrow> pty_state \<Rightarrow> thrown + pty_state" where
  "write_pty terminalId data st =
     (case get_session st terminalId of
        Undefined \<Rightarrow> Inr st
      | Session s \<Rightarrow> Inr (st\<lparr>written := written st @ [(terminal s, data)]\<rparr>)
      | Inherited \<Rightarrow> Inl TypeError)"

text \<open>
  \<^verbatim>\<open>clear(terminalId)\<close>:
  \<^verbatim>\<open>this.sessions[terminalId]?.terminal.kill(); delete this.sessions[terminalId];\<close>
  The signal of \<^verbatim>\<open>kill\<close> ends the shell. Where the first statement throws, the second is
  not reached.
\<close>

definition kill :: "pid \<Rightarrow> pty_state \<Rightarrow> pty_state" where
  "kill p st = st\<lparr>live := live st - {p}\<rparr>"

definition clear :: "string \<Rightarrow> pty_state \<Rightarrow> thrown + pty_state" where
  "clear terminalId st =
     (case get_session st terminalId of
        Undefined \<Rightarrow> Inr (delete_session terminalId st)
      | Session s \<Rightarrow> Inr (delete_session terminalId (kill (terminal s) st))
      | Inherited \<Rightarrow> Inl TypeError)"

text \<open>The pids that some session refers to, and the live processes that none refers to.\<close>

definition mapped_pids :: "pty_state \<Rightarrow> pid set" where
  "mapped_pids st = terminal ` ran (sessions st)"

definition orphaned :: "pty_state \<Rightarrow> pid set" where
  "orphaned st = live st - mapped_pids st"

subsection \<open>Writing without a session\<close>

text \<open>
  A key that names an inherited property finds a value that is no session, and \<open>write_pty\<close>
  throws though no session was ever assigned under the key.
\<close>

lemma write_pty_inherited_key:
  "write_pty ''constructor'' data TerminalManager_new = Inl TypeError"
  by (simp add: write_pty_def get_session_def inherited_keys_def Object_prototype_keys_def
      TerminalManager_new_def)

lemma inherited_keys_proto: "''__proto__'' \<in> set (inherited_keys st)"
  by (simp add: inherited_keys_def Object_prototype_keys_def)

lemma inherited_keys_delete:
  "inherited_keys (delete_session k st) = inherited_keys st"
  by (simp add: inherited_keys_def delete_session_def)

lemma inherited_keys_kill: "inherited_keys (kill p st) = inherited_keys st"
  by (simp add: inherited_keys_def kill_def)

lemma delete_session_key:
  "k \<notin> set (inherited_keys st) \<Longrightarrow> sessions (delete_session k st) k = None"
  using inherited_keys_proto [of st] by (auto simp: delete_session_def)

text \<open>
  C6. The keys of the manager are the connection ids that \<^verbatim>\<open>ws.ts\<close> hands to it
  (\<^verbatim>\<open>socket.id\<close>), and the statement is about every key that names no inherited property
  of the object. For such a key with no session under it, \<open>write_pty\<close> returns without
  throwing and the state after it (the map, the processes, the data written to terminals,
  the output events) is the state before it. That is so in the manager as constructed,
  where no \<open>createPty\<close> has been called, and after \<open>clear\<close> of the key, which itself returns
  without throwing and leaves no session under the key.
\<close>

theorem write_without_session_is_noop:
  "(k \<notin> set (inherited_keys st) \<longrightarrow> sessions st k = None \<longrightarrow> write_pty k data st = Inr st)
   \<and> (k \<notin> set Object_prototype_keys \<longrightarrow>
        sessions TerminalManager_new k = None
        \<and> write_pty k data TerminalManager_new = Inr TerminalManager_new)
   \<and> (k \<notin> set (inherited_keys st) \<longrightarrow>
        (\<exists>st'. clear k st = Inr st' \<and> sessions st' k = None \<and> write_pty k data st' = Inr st'))"
proof -
  have a: "write_pty k data st = Inr st"
    if "k \<notin> set (inherited_keys st)" and "sessions st k = None"
    using that by (simp add: write_pty_def get_session_def)
  have b: "sessions TerminalManager_new k = None
           \<and> write_pty k data TerminalManager_new = Inr TerminalManager_new"
    if "k \<notin> set Object_prototype_keys"
    using that
    by (simp add: write_pty_def get_session_def inherited_keys_def TerminalManager_new_def)
  have c: "\<exists>st'. clear k st = Inr st' \<and> sessions st' k = None \<and> write_pty k data st' = Inr st'"
    if k: "k \<notin> set (inherited_keys st)"
  proof -
    define st' where
      "st' = (case sessions st k of
                None \<Rightarrow> delete_session k st
              | Some s \<Rightarrow> delete_session k (kill (terminal s) st))"
    have cleared: "clear k st = Inr st'"
      using k by (simp add: clear_def get_session_def st'_def split: option.splits)
    have inh: "inherited_keys st' = inherited_keys st"
      by (simp add: st'_def inherited_keys_delete inherited_keys_kill split: option.splits)
    have none: "sessions st' k = None"
    proof (cases "sessions st k")
      case None
      with k delete_session_key [of k st] show ?thesis by (simp add: st'_def)
    next
      case (Some s)
      with k delete_session_key [of k "kill (terminal s) st"] show ?thesis
        by (simp add: st'_def inherited_keys_kill)
    qed
    have "write_pty k data st' = Inr st'"
      using k none by (simp add: write_pty_def get_session_def inh)
    with cleared none show ?thesis by blast
  qed
  from a b c show ?thesis by blast
qed

theorem write_without_session_is_noop_witness:
  "''s2'' \<notin> set (inherited_keys (createPty ''s1'' ''r1'' 100 TerminalManager_new))
   \<and> sessions (createPty ''s1'' ''r1'' 100 TerminalManager_new) ''s2'' = None
   \<and> write_pty ''s2'' ''ls'' (createPty ''s1'' ''r1'' 100 TerminalManager_new)
       = Inr (createPty ''s1'' ''r1'' 100 TerminalManager_new)
   \<and> ''s1'' \<notin> set (inherited_keys (createPty ''s1'' ''r1'' 100 TerminalManager_new))
   \<and> (\<exists>st'. clear ''s1'' (createPty ''s1'' ''r1'' 100 TerminalManager_new) = Inr st'
           \<and> sessions st' ''s1'' = None \<and> write_pty ''s1'' ''ls'' st' = Inr st')"
proof -
  have a: "''s2'' \<notin> set (inherited_keys (createPty ''s1'' ''r1'' 100 TerminalManager_new))"
    by (simp add: inherited_keys_def Object_prototype_keys_def createPty_def
        TerminalManager_new_def)
  have b: "sessions (createPty ''s1'' ''r1'' 100 TerminalManager_new) ''s2'' = None"
    by (simp add: createPty_def TerminalManager_new_def)
  have c: "''s1'' \<notin> set (inherited_keys (createPty ''s1'' ''r1'' 100 TerminalManager_new))"
    by (simp add: inherited_keys_def Object_prototype_keys_def createPty_def
        TerminalManager_new_def)
  from write_without_session_is_noop
         [of "''s2''" "createPty ''s1'' ''r1'' 100 TerminalManager_new" "''ls''"] a b
  have w2: "write_pty ''s2'' ''ls'' (createPty ''s1'' ''r1'' 100 TerminalManager_new)
              = Inr (createPty ''s1'' ''r1'' 100 TerminalManager_new)"
    by blast
  from write_without_session_is_noop
         [of "''s1''" "createPty ''s1'' ''r1'' 100 TerminalManager_new" "''ls''"] c
  have w1: "\<exists>st'. clear ''s1'' (createPty ''s1'' ''r1'' 100 TerminalManager_new) = Inr st'
              \<and> sessions st' ''s1'' = None \<and> write_pty ''s1'' ''ls'' st' = Inr st'"
    by blast
  from a b c w1 w2 show ?thesis by blast
qed

subsection \<open>The exit listener\<close>

text \<open>
  The listener deletes the key \<open>String_of_nat p\<close>, whatever key the session of the
  terminal is stored under.
\<close>

lemma on_exit_sessions:
  "sessions (process_exit p st) k = (if k = String_of_nat p then None else sessions st k)"
  by (simp add: process_exit_def on_exit_def)

text \<open>
  C2, evaluated: the session of connection \<open>s1\<close> runs the shell of pid 4242; after that
  shell has ended and the listener has run, the map still holds the session under \<open>s1\<close>,
  though its process is no longer live.
\<close>

theorem exit_leaves_session_entry:
  "sessions (process_exit 4242 (createPty ''s1'' ''r1'' 4242 TerminalManager_new)) ''s1''
     = Some \<lparr>terminal = 4242, replId = ''r1''\<rparr>
   \<and> 4242 \<notin> live (process_exit 4242 (createPty ''s1'' ''r1'' 4242 TerminalManager_new))"
  by (simp add: process_exit_def on_exit_def createPty_def TerminalManager_new_def
      String_of_nat.simps [of 4242] String_of_nat.simps [of 424] String_of_nat.simps [of 42]
      String_of_nat.simps [of 4] digit_char_def)

subsection \<open>createPty twice under one key\<close>

text \<open>
  The claim C1 at a concrete input: after two calls under the key \<open>s1\<close>, which forked the
  shells 100 and 101, the shell 100 of the first call is still live and no session refers
  to it.
\<close>

theorem createPty_twice_orphans_first:
  "orphaned (createPty ''s1'' ''r1'' 101 (createPty ''s1'' ''r1'' 100 TerminalManager_new)) = {100}
   \<and> live (createPty ''s1'' ''r1'' 101 (createPty ''s1'' ''r1'' 100 TerminalManager_new)) = {100, 101}"
  by (auto simp add: orphaned_def mapped_pids_def createPty_def TerminalManager_new_def)

text \<open>
  C1, as the code has it. A second \<open>createPty\<close> under the key \<open>k\<close> leaves one entry under
  \<open>k\<close>, that of the second shell, and leaves every other entry as it was. It ends no
  process: the shells of both calls are live afterwards, and every process that was live
  before still is. So the shell of the first call goes on running with no entry of \<open>k\<close>
  referring to it.
\<close>

theorem createPty_twice_replaces_entry_only:
  "p1 \<noteq> p2 \<Longrightarrow>
   sessions (createPty k r2 p2 (createPty k r1 p1 st)) k = Some \<lparr>terminal = p2, replId = r2\<rparr>
   \<and> (\<forall>j. j \<noteq> k \<longrightarrow> sessions (createPty k r2 p2 (createPty k r1 p1 st)) j = sessions st j)
   \<and> live (createPty k r2 p2 (createPty k r1 p1 st)) = insert p2 (insert p1 (live st))
   \<and> p1 \<in> live (createPty k r2 p2 (createPty k r1 p1 st))
   \<and> (\<forall>s. sessions (createPty k r2 p2 (createPty k r1 p1 st)) k = Some s \<longrightarrow> terminal s \<noteq> p1)"
  by (simp add: createPty_def)

theorem createPty_twice_replaces_entry_only_witness:
  "(100::nat) \<noteq> 101
   \<and> sessions (createPty ''s1'' ''r1'' 101 (createPty ''s1'' ''r1'' 100 TerminalManager_new)) ''s1''
       = Some \<lparr>terminal = 101, replId = ''r1''\<rparr>
   \<and> 100 \<in> live (createPty ''s1'' ''r1'' 101 (createPty ''s1'' ''r1'' 100 TerminalManager_new))"
proof -
  have ne: "(100::nat) \<noteq> 101" by simp
  from createPty_twice_replaces_entry_only [OF ne, of "''s1''" "''r1''" "''r1''" TerminalManager_new]
  show ?thesis by simp
qed

section \<open>The world of the gateway: local files, the bucket, the console\<close>

text \<open>
  A function of the gateway that may throw returns \<open>thrown + 'a\<close> paired with the world it
  leaves behind, since what it did before throwing stays done.
\<close>

record S3Object =
  Key :: "string option"

record ListObjectsV2Output =
  Contents :: "S3Object list option"
  IsTruncated :: bool
  NextContinuationToken :: "string option"

text \<open>
  The calls that leave the process, in the order they are issued: \<^verbatim>\<open>fs.writeFile\<close>, and
  the requests \<^verbatim>\<open>putObject\<close>, \<^verbatim>\<open>listObjectsV2\<close> (with its response) and \<^verbatim>\<open>copyObject\<close>
  to the object store.
\<close>

datatype effect =
    WriteFile string string
  | PutObject string string
  | ListObjectsV2 string "string option" "thrown + ListObjectsV2Output"
  | CopyObject string string

datatype log_line = Log string | LogError string

type_synonym store = "string \<rightharpoonup> string"

record world =
  local_files :: store
  objects :: store
  console :: "log_line list"
  trace :: "effect list"

text \<open>
  What the code does not decide is a parameter: the variable \<^verbatim>\<open>S3_BUCKET\<close> of the
  environment, whether a write to the local disk or a request to the store fails (and with
  what), and what the store answers to a listing request, given its content, the prefix and
  the continuation token.
\<close>

record env =
  S3_BUCKET :: "string option"
  writeFile_error :: "string \<Rightarrow> thrown option"
  putObject_error :: "string \<Rightarrow> thrown option"
  copyObject_error :: "string \<Rightarrow> string \<Rightarrow> thrown option"
  listObjectsV2 :: "store \<Rightarrow> string \<Rightarrow> string option \<Rightarrow> thrown + ListObjectsV2Output"

subsection \<open>fs.ts\<close>

text \<open>
  \<^verbatim>\<open>saveFile\<close> wraps \<^verbatim>\<open>fs.writeFile(file, content, "utf8", cb)\<close>: it rejects with the
  error of the write, or resolves once the file holds the content.
  \<^verbatim>\<open>fetchFileContent\<close> wraps \<^verbatim>\<open>fs.readFile(file, "utf8", cb)\<close>. Each function gives what
  its operation does to the world in one step; between the call and that step other
  handlers can run (see the handlers in flight below).
\<close>

definition saveFile :: "env \<Rightarrow> string \<Rightarrow> string \<Rightarrow> world \<Rightarrow> (thrown + unit) \<times> world" where
  "saveFile e file content w =
     (let w1 = w\<lparr>trace := trace w @ [WriteFile file content]\<rparr>
      in case writeFile_error e file of
           Some err \<Rightarrow> (Inl err, w1)
         | None \<Rightarrow> (Inr (), w1\<lparr>local_files := (local_files w1)(file \<mapsto> content)\<rparr>))"

definition fetchFileContent :: "string \<Rightarrow> world \<Rightarrow> thrown + string" where
  "fetchFileContent file w =
     (case local_files w file of
        None \<Rightarrow> Inl (Error ''ENOENT: no such file or directory'')
      | Some data \<Rightarrow> Inr data)"

subsection \<open>aws.ts: saveToS3\<close>

text \<open>
  Modelled from the spec: the put of the Durable Store Client
  (\<^verbatim>\<open>put(key, bytes) -> acknowledged | failed\<close>), which the repository takes from the AWS
  SDK as \<^verbatim>\<open>s3.putObject(params).promise()\<close>. An acknowledged put stores the body under the
  key; a failed one rejects and stores nothing.
\<close>

definition s3_putObject :: "env \<Rightarrow> string \<Rightarrow> string \<Rightarrow> world \<Rightarrow> (thrown + unit) \<times> world" where
  "s3_putObject e k body w =
     (let w1 = w\<lparr>trace := trace w @ [PutObject k body]\<rparr>
      in case putObject_error e k of
           Some err \<Rightarrow> (Inl err, w1)
         | None \<Rightarrow> (Inr (), w1\<lparr>objects := (objects w1)(k \<mapsto> body)\<rparr>))"

text \<open>\<^verbatim>\<open>saveToS3(key, filePath, content)\<close> puts the content under \<^verbatim>\<open>`${key}${filePath}`\<close>.\<close>

definition saveToS3 :: "env \<Rightarrow> string \<Rightarrow> string \<Rightarrow> string \<Rightarrow> world \<Rightarrow> (thrown + unit) \<times> world" where
  "saveToS3 e k filePath content w = s3_putObject e (k @ filePath) content w"

subsection \<open>ws.ts: the handlers of updateContent and fetchContent\<close>

text \<open>
  \<^verbatim>\<open>
  socket.on("updateContent", async ({ path: filePath, content }) => {
      const fullPath =  `/workspace/${filePath}`;
      await saveFile(fullPath, content);
      await saveToS3(`code/${replId}`, filePath, content);
  });
  \<close>
  The handler has no \<^verbatim>\<open>try\<close>: a rejection of either \<^verbatim>\<open>await\<close> rejects the promise of the
  handler, which nothing awaits. \<open>Inl\<close> is that rejected promise.
\<close>

definition updateContent :: "env \<Rightarrow> string \<Rightarrow> string \<Rightarrow> string \<Rightarrow> world \<Rightarrow> (thrown + unit) \<times> world" where
  "updateContent e rid filePath content w =
     (let fullPath = ''/workspace/'' @ filePath
      in case saveFile e fullPath content w of
           (Inl err, w1) \<Rightarrow> (Inl err, w1)
         | (Inr u, w1) \<Rightarrow> saveToS3 e (''code/'' @ rid) filePath content w1)"

text \<open>
  \<^verbatim>\<open>fetchContent\<close> reads \<^verbatim>\<open>`/workspace/${filePath}`\<close> and hands the data to the callback.
\<close>

definition fetchContent :: "string \<Rightarrow> world \<Rightarrow> thrown + string" where
  "fetchContent filePath w = fetchFileContent (''/workspace/'' @ filePath) w"

text \<open>A world with nothing in it, and an environment whose object store is unreachable.\<close>

definition fresh_world :: world where
  "fresh_world = \<lparr>local_files = Map.empty, objects = Map.empty, console = [], trace = []\<rparr>"

definition store_down :: env where
  "store_down =
     \<lparr>S3_BUCKET = Some ''bucket'', writeFile_error = (\<lambda>_. None),
      putObject_error = (\<lambda>_. Some (Error ''NetworkingError'')),
      copyObject_error = (\<lambda>_ _. None),
      listObjectsV2 = (\<lambda>st p t. Inl (Error ''NetworkingError''))\<rparr>"

subsection \<open>A put that fails after the local write\<close>

text \<open>
  The claim C3 at a concrete input: the local write succeeds and the put fails. The
  handler ends in a rejected promise and the console is as empty as before: the failure
  is not logged.
\<close>

theorem updateContent_put_failure_not_logged:
  "fst (updateContent store_down ''w1'' ''/a/x.txt'' ''hello'' fresh_world)
     = Inl (Error ''NetworkingError'')
   \<and> console (snd (updateContent store_down ''w1'' ''/a/x.txt'' ''hello'' fresh_world)) = []"
  by (simp add: updateContent_def saveFile_def saveToS3_def s3_putObject_def store_down_def
      fresh_world_def Let_def)

text \<open>
  C3, as the code has it. When the local write succeeds and the put fails, the local
  file keeps the new content (nothing is rolled back) and a later \<open>fetchContent\<close> returns
  it, the bucket is unchanged, nothing is written to the console, and the error of the put
  leaves the handler as the rejection of its promise, which the handler does not catch.
\<close>

theorem updateContent_put_failure:
  "writeFile_error e (''/workspace/'' @ filePath) = None \<Longrightarrow>
   putObject_error e ((''code/'' @ rid) @ filePath) = Some err \<Longrightarrow>
   fst (updateContent e rid filePath content w) = Inl err
   \<and> local_files (snd (updateContent e rid filePath content w))
        = (local_files w)(''/workspace/'' @ filePath \<mapsto> content)
   \<and> objects (snd (updateContent e rid filePath content w)) = objects w
   \<and> console (snd (updateContent e rid filePath content w)) = console w
   \<and> fetchContent filePath (snd (updateContent e rid filePath content w)) = Inr content"
  by (simp add: updateContent_def saveFile_def saveToS3_def s3_putObject_def Let_def
      fetchContent_def fetchFileContent_def)

theorem updateContent_put_failure_witness:
  "writeFile_error store_down (''/workspace/'' @ ''/a/x.txt'') = None
   \<and> putObject_error store_down ((''code/'' @ ''w1'') @ ''/a/x.txt'')
       = Some (Error ''NetworkingError'')
   \<and> fst (updateContent store_down ''w1'' ''/a/x.txt'' ''hello'' fresh_world)
       = Inl (Error ''NetworkingError'')
   \<and> console (snd (updateContent store_down ''w1'' ''/a/x.txt'' ''hello'' fresh_world))
       = console fresh_world
   \<and> fetchContent ''/a/x.txt''
        (snd (updateContent store_down ''w1'' ''/a/x.txt'' ''hello'' fresh_world)) = Inr ''hello''"
proof -
  have a: "writeFile_error store_down (''/workspace/'' @ ''/a/x.txt'') = None"
    by (simp add: store_down_def)
  have b: "putObject_error store_down ((''code/'' @ ''w1'') @ ''/a/x.txt'')
             = Some (Error ''NetworkingError'')"
    by (simp add: store_down_def)
  from updateContent_put_failure [OF a b, of "''hello''" fresh_world] a b
  show ?thesis by simp
qed

subsection \<open>The handler of updateContent, run without interruption\<close>

text \<open>
  In \<open>updateContent\<close> the put is issued only after \<open>saveFile\<close> has resolved, in the world
  that \<open>saveFile\<close> left: the trace of an update is the write followed by the put, and where
  the write fails the put is never issued.
\<close>

lemma updateContent_write_then_put:
  "(writeFile_error e (''/workspace/'' @ filePath) = None \<longrightarrow>
      (\<exists>w1. saveFile e (''/workspace/'' @ filePath) content w = (Inr (), w1)
           \<and> updateContent e rid filePath content w
               = saveToS3 e (''code/'' @ rid) filePath content w1
           \<and> fetchContent filePath w1 = Inr content)
      \<and> trace (snd (updateContent e rid filePath content w))
           = trace w @ [WriteFile (''/workspace/'' @ filePath) content,
                        PutObject ((''code/'' @ rid) @ filePath) content])
   \<and> (writeFile_error e (''/workspace/'' @ filePath) \<noteq> None \<longrightarrow>
      trace (snd (updateContent e rid filePath content w))
        = trace w @ [WriteFile (''/workspace/'' @ filePath) content]
      \<and> objects (snd (updateContent e rid filePath content w)) = objects w)"
  by (auto simp add: updateContent_def saveFile_def saveToS3_def s3_putObject_def Let_def
      fetchContent_def fetchFileContent_def split: option.splits)

subsection \<open>Handlers in flight\<close>

text \<open>
  socket.io calls the listener of a message when the message arrives and does not wait
  for the promise that the listener returns; \<^verbatim>\<open>updateContent\<close> has no acknowledgement. A
  listener runs to its first \<^verbatim>\<open>await\<close> and goes on when the awaited operation has settled,
  and meanwhile the listener of the next message can start. So the handlers of one
  connection overlap, and the operations they await (\<^verbatim>\<open>fs.writeFile\<close>, \<^verbatim>\<open>fs.readFile\<close>, the
  put) settle in any order.

  A handler in flight is known by the call it awaits. Each operation is taken to act on
  the world at one moment between its call and its callback, the moment it settles:
  \<open>Settle i\<close> is that moment for the operation that handler \<open>i\<close> awaits, followed by the
  handler's code up to its next \<^verbatim>\<open>await\<close> or its end. The \<open>trace\<close> then lists the
  operations in the order in which they settle.
\<close>

datatype request = OnUpdateContent string string | OnFetchContent string

datatype task =
    AwaitSaveFile string string
  | AwaitSaveToS3 string string
  | AwaitFetchFileContent string
  | Settled

record gateway =
  now :: world
  handlers :: "task list"
  callbacks :: "(string \<times> string) list"
  rejections :: "thrown list"

datatype event = Receive request | Settle nat

text \<open>
  The listener starts: \<^verbatim>\<open>updateContent\<close> calls \<^verbatim>\<open>saveFile\<close>, \<^verbatim>\<open>fetchContent\<close> calls
  \<^verbatim>\<open>fetchFileContent\<close>, and each waits.
\<close>

fun receive :: "request \<Rightarrow> gateway \<Rightarrow> gateway" where
  "receive (OnUpdateContent filePath content) g =
     g\<lparr>handlers := handlers g @ [AwaitSaveFile filePath content]\<rparr>"
| "receive (OnFetchContent filePath) g =
     g\<lparr>handlers := handlers g @ [AwaitFetchFileContent filePath]\<rparr>"

text \<open>
  The awaited operation of handler \<open>i\<close> settles. After \<^verbatim>\<open>saveFile\<close> the handler calls
  \<^verbatim>\<open>saveToS3\<close> and waits again; after \<^verbatim>\<open>saveToS3\<close> it ends; after \<^verbatim>\<open>fetchFileContent\<close> it
  calls \<^verbatim>\<open>callback(data)\<close> and ends. A rejection of the awaited promise ends the handler
  with that rejection, which nothing handles.
\<close>

definition settle :: "env \<Rightarrow> string \<Rightarrow> nat \<Rightarrow> gateway \<Rightarrow> gateway" where
  "settle e rid i g =
     (if length (handlers g) \<le> i then g
      else case handlers g ! i of
        AwaitSaveFile filePath content \<Rightarrow>
          (case saveFile e (''/workspace/'' @ filePath) content (now g) of
             (Inl err, w1) \<Rightarrow>
               g\<lparr>now := w1, handlers := (handlers g)[i := Settled],
                  rejections := rejections g @ [err]\<rparr>
           | (Inr u, w1) \<Rightarrow>
               g\<lparr>now := w1, handlers := (handlers g)[i := AwaitSaveToS3 filePath content]\<rparr>)
      | AwaitSaveToS3 filePath content \<Rightarrow>
          (case saveToS3 e (''code/'' @ rid) filePath content (now g) of
             (Inl err, w1) \<Rightarrow>
               g\<lparr>now := w1, handlers := (handlers g)[i := Settled],
                  rejections := rejections g @ [err]\<rparr>
           | (Inr u, w1) \<Rightarrow> g\<lparr>now := w1, handlers := (handlers g)[i := Settled]\<rparr>)
      | AwaitFetchFileContent filePath \<Rightarrow>
          (case fetchContent filePath (now g) of
             Inl err \<Rightarrow>
               g\<lparr>handlers := (handlers g)[i := Settled], rejections := rejections g @ [err]\<rparr>
           | Inr data \<Rightarrow>
               g\<lparr>handlers := (handlers g)[i := Settled],
                  callbacks := callbacks g @ [(filePath, data)]\<rparr>)
      | Settled \<Rightarrow> g)"

fun step :: "env \<Rightarrow> string \<Rightarrow> event \<Rightarrow> gateway \<Rightarrow> gateway" where
  "step e rid (Receive m) g = receive m g"
| "step e rid (Settle i) g = settle e rid i g"

fun run :: "env \<Rightarrow> string \<Rightarrow> event list \<Rightarrow> gateway \<Rightarrow> gateway" where
  "run e rid [] g = g"
| "run e rid (ev # evs) g = run e rid evs (step e rid ev g)"

text \<open>A connection with no handler in flight.\<close>

definition idle :: "world \<Rightarrow> gateway" where
  "idle w = \<lparr>now = w, handlers = [], callbacks = [], rejections = []\<rparr>"

text \<open>
  An event writes a file when it settles the \<^verbatim>\<open>saveFile\<close> of that file. A sequence of
  events leaves a file undisturbed when none of its events, in the state it meets, writes
  the file.
\<close>

definition writes_file :: "gateway \<Rightarrow> event \<Rightarrow> string \<Rightarrow> bool" where
  "writes_file g ev file =
     (case ev of
        Receive m \<Rightarrow> False
      | Settle i \<Rightarrow>
          i < length (handlers g)
          \<and> (case handlers g ! i of
                AwaitSaveFile filePath content \<Rightarrow> ''/workspace/'' @ filePath = file
              | _ \<Rightarrow> False))"

fun undisturbed :: "env \<Rightarrow> string \<Rightarrow> string \<Rightarrow> event list \<Rightarrow> gateway \<Rightarrow> bool" where
  "undisturbed e rid file [] g = True"
| "undisturbed e rid file (ev # evs) g =
     (\<not> writes_file g ev file \<and> undisturbed e rid file evs (step e rid ev g))"



text \<open>
  With no other handler in flight and no message arriving in between, the handler of
  \<^verbatim>\<open>updateContent\<close> does what \<open>updateContent\<close> above does.
\<close>

lemma updateContent_as_run:
  "now (run e rid [Receive (OnUpdateContent filePath content), Settle 0, Settle 0] (idle w))
     = snd (updateContent e rid filePath content w)
   \<and> rejections (run e rid [Receive (OnUpdateContent filePath content), Settle 0, Settle 0] (idle w))
     = (case fst (updateContent e rid filePath content w) of Inl err \<Rightarrow> [err] | Inr u \<Rightarrow> [])"
  by (simp add: idle_def settle_def updateContent_def saveFile_def saveToS3_def s3_putObject_def
      Let_def split: option.splits)


lemma undisturbed_append:
  "undisturbed e rid file (xs @ ys) g
     = (undisturbed e rid file xs g \<and> undisturbed e rid file ys (run e rid xs g))"
  by (induction xs arbitrary: g) auto


lemma receive_handlers: "\<exists>t. handlers (receive m g) = handlers g @ [t]"
  by (cases m) simp_all

lemma receive_callbacks: "callbacks (receive m g) = callbacks g"
  by (cases m) simp_all

lemma settle_length: "length (handlers (settle e rid i g)) = length (handlers g)"
  by (simp add: settle_def split: task.splits prod.splits sum.splits)

lemma settle_other:
  "j \<noteq> i \<Longrightarrow> handlers (settle e rid i g) ! j = handlers g ! j"
  by (simp add: settle_def split: task.splits prod.splits sum.splits)





text \<open>A handler passes to the put only when its write settles, and then the file holds the content.\<close>

lemma put_only_after_write:
  assumes "i < length (handlers (step e rid ev g))"
    and "handlers (step e rid ev g) ! i = AwaitSaveToS3 filePath content"
  shows "(i < length (handlers g) \<and> handlers g ! i = AwaitSaveToS3 filePath content)
         \<or> (ev = Settle i \<and> i < length (handlers g)
            \<and> handlers g ! i = AwaitSaveFile filePath content
            \<and> local_files (now (step e rid ev g)) (''/workspace/'' @ filePath) = Some content)"
proof (cases ev)
  case (Receive m)
  with assms receive_handlers [of m g] show ?thesis
    by (cases m) (auto simp: nth_append split: if_splits)
next
  case (Settle k)
  have len: "i < length (handlers g)" using assms(1) Settle by (simp add: settle_length)
  show ?thesis
  proof (cases "k = i")
    case False
    with assms(2) Settle settle_other [of i k e rid g] len show ?thesis by simp
  next
    case True
    with assms(2) Settle len show ?thesis
      by (auto simp: settle_def saveFile_def saveToS3_def s3_putObject_def Let_def
          split: task.splits option.splits sum.splits if_splits)
  qed
qed

subsection \<open>A fetch while the write is in flight\<close>


subsection \<open>The local write comes first\<close>



section \<open>Provisioning: copyS3Folder (init-service, aws.ts)\<close>

subsection \<open>String.prototype.replace with a string pattern\<close>

text \<open>
  \<^verbatim>\<open>object.Key.replace(sourcePrefix, destinationPrefix)\<close> replaces the first occurrence of
  the pattern, if there is one, and reads the replacement as a template: \<^verbatim>\<open>$$\<close> stands for
  a dollar sign, \<^verbatim>\<open>$&\<close> for the matched text, \<^verbatim>\<open>$`\<close> for the text before the match and
  \<^verbatim>\<open>$'\<close> for the text after it (ECMAScript, GetSubstitution; with a string pattern there
  are no captures, so every other \<^verbatim>\<open>$\<close> is literal).

  \<open>split_first pat str\<close> is the text before and after the first occurrence of \<open>pat\<close>.
\<close>

fun split_first :: "string \<Rightarrow> string \<Rightarrow> (string \<times> string) option" where
  "split_first pat [] = (if pat = [] then Some ([], []) else None)"
| "split_first pat (c # cs) =
     (if prefix pat (c # cs) then Some ([], drop (length pat) (c # cs))
      else map_option (\<lambda>(preceding, following). (c # preceding, following)) (split_first pat cs))"

fun GetSubstitution :: "string \<Rightarrow> string \<Rightarrow> string \<Rightarrow> string \<Rightarrow> string" where
  "GetSubstitution matched preceding following (c # d # rest) =
     (if c = CHR ''$'' then
        (if d = CHR ''$'' then CHR ''$'' # GetSubstitution matched preceding following rest
         else if d = CHR ''&'' then matched @ GetSubstitution matched preceding following rest
         else if d = CHR 0x60 then preceding @ GetSubstitution matched preceding following rest
         else if d = CHR 0x27 then following @ GetSubstitution matched preceding following rest
         else c # GetSubstitution matched preceding following (d # rest))
      else c # GetSubstitution matched preceding following (d # rest))"
| "GetSubstitution matched preceding following template = template"

definition js_replace :: "string \<Rightarrow> string \<Rightarrow> string \<Rightarrow> string" where
  "js_replace str searchValue replaceValue =
     (case split_first searchValue str of
        None \<Rightarrow> str
      | Some (preceding, following) \<Rightarrow>
          preceding @ GetSubstitution searchValue preceding following replaceValue @ following)"

subsection \<open>Copying the objects of one page\<close>

text \<open>
  Modelled from the spec: the copy of the Durable Store Client
  (\<^verbatim>\<open>copy(srcKey, dstKey) -> acknowledged | failed\<close>), which the repository takes from the
  AWS SDK as \<^verbatim>\<open>s3.copyObject(copyParams).promise()\<close>. An acknowledged copy stores the
  body of the source under the destination key, overwriting what was there; a copy fails
  when the store refuses it or when the source key holds no object.
\<close>

definition s3_copyObject :: "env \<Rightarrow> string \<Rightarrow> string \<Rightarrow> store \<Rightarrow> thrown + store" where
  "s3_copyObject e source k st =
     (case copyObject_error e source k of
        Some err \<Rightarrow> Inl err
      | None \<Rightarrow>
          (case st source of
             None \<Rightarrow> Inl (Error ''NoSuchKey'')
           | Some body \<Rightarrow> Inr (st(k \<mapsto> body))))"

text \<open>
  The callback of \<^verbatim>\<open>chunk.map\<close>: an object without a key (or with the empty key, which is
  falsy as well) is skipped; otherwise the copy is requested and, once acknowledged,
  logged. The first component is the error of the rejected promise, if any.
\<close>

definition copy_object :: "env \<Rightarrow> string \<Rightarrow> string \<Rightarrow> S3Object \<Rightarrow> world \<Rightarrow> thrown option \<times> world" where
  "copy_object e sourcePrefix destinationPrefix object w =
     (case Key object of
        None \<Rightarrow> (None, w)
      | Some k \<Rightarrow>
          if k = [] then (None, w)
          else
            (let destinationKey = js_replace k sourcePrefix destinationPrefix;
                 w1 = w\<lparr>trace := trace w @ [CopyObject k destinationKey]\<rparr>
             in case s3_copyObject e k destinationKey (objects w1) of
                  Inl err \<Rightarrow> (Some err, w1)
                | Inr st \<Rightarrow>
                    (None, w1\<lparr>objects := st,
                        console := console w1 @ [Log (''Copied '' @ k @ '' to '' @ destinationKey)]\<rparr>)))"

text \<open>
  \<^verbatim>\<open>await Promise.all(chunk.map(async (object) => ...))\<close>: the requests of the whole
  chunk are issued before any answer is awaited, so a failed copy does not keep the other
  copies of its chunk from happening; the promise rejects with the error of a failed one
  (here the first in the order of the chunk). The copies of a chunk are taken in the order
  of the chunk.
\<close>

fun copy_chunk :: "env \<Rightarrow> string \<Rightarrow> string \<Rightarrow> S3Object list \<Rightarrow> world \<Rightarrow> thrown option \<times> world" where
  "copy_chunk e sourcePrefix destinationPrefix [] w = (None, w)"
| "copy_chunk e sourcePrefix destinationPrefix (object # chunk) w =
     (case copy_object e sourcePrefix destinationPrefix object w of
        (r1, w1) \<Rightarrow>
          (case copy_chunk e sourcePrefix destinationPrefix chunk w1 of
             (r2, w2) \<Rightarrow> (case r1 of Some err \<Rightarrow> Some err | None \<Rightarrow> r2, w2)))"

text \<open>\<^verbatim>\<open>for (const chunk of chunks) { await Promise.all(...) }\<close> stops at the first chunk that rejects.\<close>

fun copy_chunks :: "env \<Rightarrow> string \<Rightarrow> string \<Rightarrow> S3Object list list \<Rightarrow> world \<Rightarrow> thrown option \<times> world" where
  "copy_chunks e sourcePrefix destinationPrefix [] w = (None, w)"
| "copy_chunks e sourcePrefix destinationPrefix (chunk # chunks) w =
     (case copy_chunk e sourcePrefix destinationPrefix chunk w of
        (Some err, w1) \<Rightarrow> (Some err, w1)
      | (None, w1) \<Rightarrow> copy_chunks e sourcePrefix destinationPrefix chunks w1)"

text \<open>
  \<^verbatim>\<open>for (let i = 0; i < Contents.length; i += maxConcurrency) chunks.push(Contents.slice(i, i + maxConcurrency))\<close>
\<close>

function chunked :: "nat \<Rightarrow> 'a list \<Rightarrow> 'a list list" where
  "chunked n xs = (if n = 0 \<or> xs = [] then [] else take n xs # chunked n (drop n xs))"
  by pat_completeness auto
termination
  by (relation "measure (\<lambda>(n, xs). length xs)") auto

declare chunked.simps [simp del]

definition maxConcurrency :: nat where
  "maxConcurrency = 10"

subsection \<open>copyS3Folder\<close>

text \<open>
  The \<^verbatim>\<open>catch\<close> block around the body: an \<^verbatim>\<open>Error\<close> is logged and thrown again with its
  message wrapped, any other value is logged and replaced by an \<^verbatim>\<open>Error\<close>.
\<close>

definition catch_copy :: "(thrown + unit) \<times> world \<Rightarrow> (thrown + unit) \<times> world" where
  "catch_copy rw =
     (case rw of
        (Inr u, w) \<Rightarrow> (Inr u, w)
      | (Inl (Error m), w) \<Rightarrow>
          (Inl (Error (''Failed to copy folder: '' @ m)),
           w\<lparr>console := console w @ [LogError (''Error copying folder: '' @ m)]\<rparr>)
      | (Inl Thrown, w) \<Rightarrow>
          (Inl (Error ''Failed to copy folder due to an unknown error.''),
           w\<lparr>console := console w @ [LogError ''Unknown error copying folder:'']\<rparr>))"

text \<open>\<^verbatim>\<open>!process.env.S3_BUCKET\<close>: unset, or the empty string.\<close>

definition falsy :: "string option \<Rightarrow> bool" where
  "falsy v = (v = None \<or> v = Some [])"

text \<open>\<^verbatim>\<open>error.message || "Unknown error"\<close>\<close>

definition js_or :: "string \<Rightarrow> string \<Rightarrow> string" where
  "js_or s d = (if s = [] then d else s)"

definition thrown_message :: "thrown \<Rightarrow> string" where
  "thrown_message err = (case err of Error m \<Rightarrow> m | Thrown \<Rightarrow> [])"

text \<open>The \<^verbatim>\<open>.catch\<close> of the listing request, and the branch of an empty listing.\<close>

definition list_failed :: "thrown \<Rightarrow> world \<Rightarrow> (thrown + unit) \<times> world" where
  "list_failed err w =
     (Inl (Error (''Failed to list objects in S3 bucket: ''
                  @ js_or (thrown_message err) ''Unknown error'')),
      w\<lparr>console := console w @ [LogError (''Error listing objects in S3: '' @ thrown_message err)]\<rparr>)"

definition no_files_found :: "string \<Rightarrow> world \<Rightarrow> world" where
  "no_files_found sourcePrefix w =
     w\<lparr>console := console w @ [Log (''No files found in source folder: '' @ sourcePrefix)]\<rparr>"

text \<open>
  \<^verbatim>\<open>copyS3Folder(sourcePrefix, destinationPrefix, continuationToken?, depth = 0, maxDepth = 10)\<close>.
  The two guards throw outside the \<^verbatim>\<open>try\<close>; everything else, the recursive call for the
  next page included, runs inside it. The recursion ends because \<open>maxDepth + 1 - depth\<close>
  decreases with every call that gets past the guards.
\<close>

function copyS3Folder ::
  "env \<Rightarrow> string \<Rightarrow> string \<Rightarrow> string option \<Rightarrow> nat \<Rightarrow> nat \<Rightarrow> world \<Rightarrow> (thrown + unit) \<times> world" where
  "copyS3Folder e sourcePrefix destinationPrefix continuationToken depth maxDepth w =
     (if falsy (S3_BUCKET e) then
        (Inl (Error ''S3_BUCKET environment variable is not defined. Please ensure it is set in your environment configuration.''), w)
      else if depth > maxDepth then
        (Inl (Error ''Maximum recursion depth exceeded while copying S3 folder.''), w)
      else
        catch_copy
          (let listing = listObjectsV2 e (objects w) sourcePrefix continuationToken;
               w0 = w\<lparr>trace := trace w @ [ListObjectsV2 sourcePrefix continuationToken listing]\<rparr>
           in case listing of
                Inl err \<Rightarrow> list_failed err w0
              | Inr listedObjects \<Rightarrow>
                  (case Contents listedObjects of
                     None \<Rightarrow> (Inr (), no_files_found sourcePrefix w0)
                   | Some objs \<Rightarrow>
                       if objs = [] then (Inr (), no_files_found sourcePrefix w0)
                       else
                         (case copy_chunks e sourcePrefix destinationPrefix
                                 (chunked maxConcurrency objs) w0 of
                            (Some err, w1) \<Rightarrow> (Inl err, w1)
                          | (None, w1) \<Rightarrow>
                              if IsTruncated listedObjects then
                                copyS3Folder e sourcePrefix destinationPrefix
                                  (NextContinuationToken listedObjects) (depth + 1) maxDepth w1
                              else (Inr (), w1)))))"
  by pat_completeness auto
termination
  by (relation "measure (\<lambda>(e, s, d, t, depth, maxDepth, w). maxDepth + 1 - depth)") auto

declare copyS3Folder.simps [simp del]

text \<open>The world right after the listing request of a call.\<close>

definition listed_world :: "env \<Rightarrow> string \<Rightarrow> string option \<Rightarrow> world \<Rightarrow> world" where
  "listed_world e s t w =
     w\<lparr>trace := trace w @ [ListObjectsV2 s t (listObjectsV2 e (objects w) s t)]\<rparr>"

text \<open>The answers to the listing requests of a trace, in order.\<close>

definition listing_results :: "effect list \<Rightarrow> (thrown + ListObjectsV2Output) list" where
  "listing_results tr = concat (map (\<lambda>ev. case ev of ListObjectsV2 p t r \<Rightarrow> [r] | _ \<Rightarrow> []) tr)"

text \<open>
  A page after which \<open>copyS3Folder\<close> asks for no further page: it has no contents, or it
  is not truncated.
\<close>

definition final_page :: "ListObjectsV2Output \<Rightarrow> bool" where
  "final_page out = (Contents out = None \<or> Contents out = Some [] \<or> \<not> IsTruncated out)"

definition pages_ok :: "nat \<Rightarrow> thrown + unit \<Rightarrow> (thrown + ListObjectsV2Output) list \<Rightarrow> bool" where
  "pages_ok bound r rs =
     (length rs \<le> bound
      \<and> (r = Inr () \<longrightarrow> rs \<noteq> [] \<and> (\<exists>out. last rs = Inr out \<and> final_page out))
      \<and> (\<forall>x \<in> set (butlast rs). \<exists>out. x = Inr out \<and> \<not> final_page out)
      \<and> (r = Inr () \<or> (\<exists>m. r = Inl (Error m))))"

text \<open>A store that answers every listing request with one more truncated page.\<close>

definition truncated_page :: ListObjectsV2Output where
  "truncated_page =
     \<lparr>Contents = Some [\<lparr>Key = Some ''base/x/a''\<rparr>], IsTruncated = True,
      NextContinuationToken = Some ''next''\<rparr>"

definition hostile_env :: env where
  "hostile_env =
     \<lparr>S3_BUCKET = Some ''bucket'', writeFile_error = (\<lambda>_. None), putObject_error = (\<lambda>_. None),
      copyObject_error = (\<lambda>_ _. None), listObjectsV2 = (\<lambda>st p t. Inr truncated_page)\<rparr>"

definition template_world :: world where
  "template_world =
     \<lparr>local_files = Map.empty, objects = [''base/x/a'' \<mapsto> ''A''], console = [], trace = []\<rparr>"

subsection \<open>The branches of copyS3Folder\<close>

lemma copyS3Folder_no_bucket:
  "falsy (S3_BUCKET e) \<Longrightarrow> \<exists>m. copyS3Folder e s d t depth maxDepth w = (Inl (Error m), w)"
  by (simp add: copyS3Folder.simps [of e s d t depth maxDepth w])

lemma copyS3Folder_too_deep:
  "\<not> falsy (S3_BUCKET e) \<Longrightarrow> maxDepth < depth \<Longrightarrow>
   copyS3Folder e s d t depth maxDepth w
     = (Inl (Error ''Maximum recursion depth exceeded while copying S3 folder.''), w)"
  by (simp add: copyS3Folder.simps [of e s d t depth maxDepth w])

lemma copyS3Folder_list_error:
  "\<not> falsy (S3_BUCKET e) \<Longrightarrow> \<not> maxDepth < depth \<Longrightarrow>
   listObjectsV2 e (objects w) s t = Inl err \<Longrightarrow>
   copyS3Folder e s d t depth maxDepth w = catch_copy (list_failed err (listed_world e s t w))"
  by (simp add: copyS3Folder.simps [of e s d t depth maxDepth w] Let_def listed_world_def)

lemma copyS3Folder_no_files:
  "\<not> falsy (S3_BUCKET e) \<Longrightarrow> \<not> maxDepth < depth \<Longrightarrow>
   listObjectsV2 e (objects w) s t = Inr out \<Longrightarrow>
   Contents out = None \<or> Contents out = Some [] \<Longrightarrow>
   copyS3Folder e s d t depth maxDepth w
     = catch_copy (Inr (), no_files_found s (listed_world e s t w))"
  by (auto simp: copyS3Folder.simps [of e s d t depth maxDepth w] Let_def listed_world_def)

lemma copyS3Folder_copy_error:
  "\<not> falsy (S3_BUCKET e) \<Longrightarrow> \<not> maxDepth < depth \<Longrightarrow>
   listObjectsV2 e (objects w) s t = Inr out \<Longrightarrow>
   Contents out = Some objs \<Longrightarrow> objs \<noteq> [] \<Longrightarrow>
   copy_chunks e s d (chunked maxConcurrency objs) (listed_world e s t w) = (Some err, w1) \<Longrightarrow>
   copyS3Folder e s d t depth maxDepth w = catch_copy (Inl err, w1)"
  by (simp add: copyS3Folder.simps [of e s d t depth maxDepth w] Let_def listed_world_def)

lemma copyS3Folder_last_page:
  "\<not> falsy (S3_BUCKET e) \<Longrightarrow> \<not> maxDepth < depth \<Longrightarrow>
   listObjectsV2 e (objects w) s t = Inr out \<Longrightarrow>
   Contents out = Some objs \<Longrightarrow> objs \<noteq> [] \<Longrightarrow>
   copy_chunks e s d (chunked maxConcurrency objs) (listed_world e s t w) = (None, w1) \<Longrightarrow>
   \<not> IsTruncated out \<Longrightarrow>
   copyS3Folder e s d t depth maxDepth w = catch_copy (Inr (), w1)"
  by (simp add: copyS3Folder.simps [of e s d t depth maxDepth w] Let_def listed_world_def)

lemma copyS3Folder_next_page:
  "\<not> falsy (S3_BUCKET e) \<Longrightarrow> \<not> maxDepth < depth \<Longrightarrow>
   listObjectsV2 e (objects w) s t = Inr out \<Longrightarrow>
   Contents out = Some objs \<Longrightarrow> objs \<noteq> [] \<Longrightarrow>
   copy_chunks e s d (chunked maxConcurrency objs) (listed_world e s t w) = (None, w1) \<Longrightarrow>
   IsTruncated out \<Longrightarrow>
   copyS3Folder e s d t depth maxDepth w
     = catch_copy (copyS3Folder e s d (NextContinuationToken out) (depth + 1) maxDepth w1)"
  by (simp add: copyS3Folder.simps [of e s d t depth maxDepth w] Let_def listed_world_def)

subsection \<open>The listing requests of a run\<close>

lemma listing_results_append [simp]:
  "listing_results (xs @ ys) = listing_results xs @ listing_results ys"
  by (simp add: listing_results_def)

lemma listing_results_simps [simp]:
  "listing_results [] = []"
  "listing_results [CopyObject k d] = []"
  "listing_results [ListObjectsV2 p t r] = [r]"
  by (simp_all add: listing_results_def)

lemma copy_object_listings:
  "listing_results (trace (snd (copy_object e s d obj w))) = listing_results (trace w)"
  by (simp add: copy_object_def Let_def split: option.splits sum.splits)

lemma copy_chunk_listings:
  "listing_results (trace (snd (copy_chunk e s d objs w))) = listing_results (trace w)"
proof (induction objs arbitrary: w)
  case Nil
  show ?case by simp
next
  case (Cons obj objs)
  obtain r1 w1 where c1: "copy_object e s d obj w = (r1, w1)" by (cases "copy_object e s d obj w")
  obtain r2 w2 where c2: "copy_chunk e s d objs w1 = (r2, w2)" by (cases "copy_chunk e s d objs w1")
  have "listing_results (trace w1) = listing_results (trace w)"
    using copy_object_listings [of e s d obj w] c1 by simp
  moreover have "listing_results (trace w2) = listing_results (trace w1)"
    using Cons.IH [of w1] c2 by simp
  ultimately show ?case by (simp add: c1 c2)
qed

lemma copy_chunks_listings:
  "listing_results (trace (snd (copy_chunks e s d cs w))) = listing_results (trace w)"
proof (induction cs arbitrary: w)
  case Nil
  show ?case by simp
next
  case (Cons c cs)
  obtain r1 w1 where c1: "copy_chunk e s d c w = (r1, w1)" by (cases "copy_chunk e s d c w")
  have "listing_results (trace w1) = listing_results (trace w)"
    using copy_chunk_listings [of e s d c w] c1 by simp
  then show ?case using Cons.IH [of w1] by (cases r1) (simp_all add: c1)
qed

lemma catch_copy_trace: "trace (snd (catch_copy rw)) = trace (snd rw)"
  by (auto simp: catch_copy_def split: prod.splits sum.splits thrown.splits)

lemma catch_copy_ok: "fst (catch_copy rw) = Inr u \<longleftrightarrow> fst rw = Inr u"
  by (auto simp: catch_copy_def split: prod.splits sum.splits thrown.splits)

lemma catch_copy_error: "fst (catch_copy rw) = Inr () \<or> (\<exists>m. fst (catch_copy rw) = Inl (Error m))"
  by (auto simp: catch_copy_def split: prod.splits sum.splits thrown.splits)


lemma listed_world_results:
  "listing_results (trace (listed_world e s t w))
     = listing_results (trace w) @ [listObjectsV2 e (objects w) s t]"
  by (simp add: listed_world_def)

lemma pages_ok_nil: "pages_ok bound (Inl (Error m)) []"
  by (simp add: pages_ok_def)

lemma pages_ok_single_error: "0 < bound \<Longrightarrow> pages_ok bound (Inl (Error m)) [x]"
  by (simp add: pages_ok_def)

lemma pages_ok_single_final: "0 < bound \<Longrightarrow> final_page out \<Longrightarrow> pages_ok bound (Inr ()) [Inr out]"
  by (simp add: pages_ok_def)

lemma pages_ok_cons:
  "pages_ok bound r rs \<Longrightarrow> \<not> final_page out \<Longrightarrow> pages_ok (Suc bound) r (Inr out # rs)"
  by (cases rs) (auto simp: pages_ok_def)

lemma pages_ok_catch:
  "pages_ok bound (fst rw) rs \<Longrightarrow> pages_ok bound (fst (catch_copy rw)) rs"
  using catch_copy_ok [of rw "()"] catch_copy_error [of rw]
  by (auto simp: pages_ok_def)

lemma pages_ok_catch_any:
  assumes "pages_ok bound (Inl (Error m)) rs"
  shows "pages_ok bound (fst (catch_copy (Inl err, w))) rs"
proof -
  obtain m' where "fst (catch_copy (Inl err, w)) = Inl (Error m')"
    by (cases err) (auto simp: catch_copy_def)
  with assms show ?thesis by (simp add: pages_ok_def)
qed


lemma copyS3Folder_pages:
  "\<exists>rs. listing_results (trace (snd (copyS3Folder e s d t depth maxDepth w)))
           = listing_results (trace w) @ rs
        \<and> pages_ok (maxDepth + 1 - depth) (fst (copyS3Folder e s d t depth maxDepth w)) rs"
proof (induction e s d t depth maxDepth w rule: copyS3Folder.induct)
  case (1 e s d t depth maxDepth w)
  let ?bound = "maxDepth + 1 - depth"
  let ?listing = "listObjectsV2 e (objects w) s t"
  let ?w0 = "listed_world e s t w"
  note lr0 = listed_world_results [of e s t w]
  show ?case
  proof (cases "falsy (S3_BUCKET e)")
    case True
    from copyS3Folder_no_bucket [OF this, of s d t depth maxDepth w]
    show ?thesis by (auto simp: pages_ok_nil)
  next
    case bucket: False
    show ?thesis
    proof (cases "maxDepth < depth")
      case True
      show ?thesis
        by (simp add: copyS3Folder_too_deep [OF bucket True] pages_ok_nil)
    next
      case deep: False
      then have pos: "0 < ?bound" by simp
      show ?thesis
      proof (cases ?listing)
        case (Inl err)
        note res = copyS3Folder_list_error [OF bucket deep Inl, of d]
        have "pages_ok ?bound (fst (catch_copy (list_failed err ?w0))) [?listing]"
          unfolding list_failed_def
          by (rule pages_ok_catch_any) (rule pages_ok_single_error [OF pos])
        then show ?thesis
          by (simp add: res catch_copy_trace lr0 list_failed_def)
      next
        case (Inr out)
        show ?thesis
        proof (cases "Contents out = None \<or> Contents out = Some []")
          case True
          note res = copyS3Folder_no_files [OF bucket deep Inr True, of d]
          have "final_page out" using True by (auto simp: final_page_def)
          then have "pages_ok ?bound (fst (catch_copy (Inr (), no_files_found s ?w0))) [?listing]"
            using pos Inr by (simp add: pages_ok_catch pages_ok_single_final)
          then show ?thesis
            by (simp add: res catch_copy_trace no_files_found_def lr0)
        next
          case False
          then obtain objs where objs: "Contents out = Some objs" "objs \<noteq> []" by auto
          obtain rc w1 where cc: "copy_chunks e s d (chunked maxConcurrency objs) ?w0 = (rc, w1)"
            by (cases "copy_chunks e s d (chunked maxConcurrency objs) ?w0")
          have lr1: "listing_results (trace w1) = listing_results (trace w) @ [?listing]"
            using copy_chunks_listings [of e s d "chunked maxConcurrency objs" ?w0] cc lr0 by simp
          show ?thesis
          proof (cases rc)
            case (Some err)
            with cc have cc': "copy_chunks e s d (chunked maxConcurrency objs) ?w0 = (Some err, w1)"
              by simp
            note res = copyS3Folder_copy_error [OF bucket deep Inr objs cc']
            have "pages_ok ?bound (fst (catch_copy (Inl err, w1))) [?listing]"
              by (rule pages_ok_catch_any) (rule pages_ok_single_error [OF pos])
            then show ?thesis
              by (simp add: res catch_copy_trace lr1)
          next
            case None
            with cc have cc': "copy_chunks e s d (chunked maxConcurrency objs) ?w0 = (None, w1)"
              by simp
            show ?thesis
            proof (cases "IsTruncated out")
              case False
              note res = copyS3Folder_last_page [OF bucket deep Inr objs cc' False]
              have "final_page out" using False by (simp add: final_page_def)
              then have "pages_ok ?bound (fst (catch_copy (Inr (), w1))) [?listing]"
                using pos Inr by (simp add: pages_ok_catch pages_ok_single_final)
              then show ?thesis
                by (simp add: res catch_copy_trace lr1)
            next
              case True
              let ?rec = "copyS3Folder e s d (NextContinuationToken out) (depth + 1) maxDepth w1"
              note res = copyS3Folder_next_page [OF bucket deep Inr objs cc' True]
              have "\<exists>rs. listing_results (trace (snd ?rec)) = listing_results (trace w1) @ rs
                      \<and> pages_ok (maxDepth + 1 - (depth + 1)) (fst ?rec) rs"
                using bucket deep Inr objs cc' True
                by (intro "1.IH" [where x = ?listing and xa = ?w0 and b = out and ?x2.0 = objs
                      and xb = None and y = w1])
                   (simp_all add: listed_world_def)
              then obtain rs where rs: "listing_results (trace (snd ?rec)) = listing_results (trace w1) @ rs"
                and ok: "pages_ok (maxDepth + 1 - (depth + 1)) (fst ?rec) rs" by blast
              have nf: "\<not> final_page out" using objs True by (simp add: final_page_def)
              have "Suc (maxDepth + 1 - (depth + 1)) = ?bound" using deep by simp
              with pages_ok_cons [OF ok nf] have "pages_ok ?bound (fst ?rec) (Inr out # rs)" by simp
              then have a: "pages_ok ?bound (fst (catch_copy ?rec)) (Inr out # rs)"
                by (rule pages_ok_catch)
              have b: "listing_results (trace (snd (catch_copy ?rec)))
                         = listing_results (trace w) @ (Inr out # rs)"
                using rs lr1 Inr by (simp add: catch_copy_trace)
              from a b show ?thesis unfolding res by blast
            qed
          qed
        qed
      qed
    qed
  qed
qed

lemma hostile_run:
  "fst (copyS3Folder hostile_env ''base/x'' ''code/w1'' None 0 2 template_world)
     = Inl (Error ''Failed to copy folder: Failed to copy folder: Failed to copy folder: Maximum recursion depth exceeded while copying S3 folder.'')"
  "listing_results (trace (snd (copyS3Folder hostile_env ''base/x'' ''code/w1'' None 0 2 template_world)))
     = [Inr truncated_page, Inr truncated_page, Inr truncated_page]"
  by (simp_all add: copyS3Folder.simps hostile_env_def template_world_def truncated_page_def falsy_def
      chunked.simps maxConcurrency_def copy_object_def s3_copyObject_def js_replace_def catch_copy_def
      Let_def listing_results_def)

subsection \<open>Pagination is bounded and its excess is reported\<close>

text \<open>
  C7. \<open>copyS3Folder\<close> is a total function: every call returns, with \<open>Inr ()\<close> or with an
  \<^verbatim>\<open>Error\<close> thrown to its caller. A call with the default \<open>depth = 0\<close> sends at most
  \<open>maxDepth + 1\<close> listing requests, whatever the store answers. Every answer but the last
  is a page that was followed (truncated, with contents). The call returns \<open>Inr ()\<close> only
  when the last answer is a final page, so a listing cut short by the ceiling is never
  returned as a success: when \<open>maxDepth + 1\<close> pages were listed and the last of them
  still asks to be followed, the call fails with an \<^verbatim>\<open>Error\<close>.
\<close>

theorem copyS3Folder_pagination_bounded:
  "\<exists>rs. listing_results (trace (snd (copyS3Folder e s d t 0 maxDepth w)))
           = listing_results (trace w) @ rs
      \<and> length rs \<le> maxDepth + 1
      \<and> (\<forall>x \<in> set (butlast rs). \<exists>out. x = Inr out \<and> \<not> final_page out)
      \<and> (fst (copyS3Folder e s d t 0 maxDepth w) = Inr () \<longrightarrow>
           rs \<noteq> [] \<and> (\<exists>out. last rs = Inr out \<and> final_page out))
      \<and> (fst (copyS3Folder e s d t 0 maxDepth w) = Inr ()
           \<or> (\<exists>m. fst (copyS3Folder e s d t 0 maxDepth w) = Inl (Error m)))
      \<and> (length rs = maxDepth + 1 \<and> (\<exists>out. last rs = Inr out \<and> \<not> final_page out) \<longrightarrow>
           (\<exists>m. fst (copyS3Folder e s d t 0 maxDepth w) = Inl (Error m)))"
proof -
  from copyS3Folder_pages [of e s d t 0 maxDepth w]
  obtain rs where rs: "listing_results (trace (snd (copyS3Folder e s d t 0 maxDepth w)))
           = listing_results (trace w) @ rs"
    and ok: "pages_ok (maxDepth + 1 - 0) (fst (copyS3Folder e s d t 0 maxDepth w)) rs"
    by blast
  from ok have "length rs \<le> maxDepth + 1
      \<and> (\<forall>x \<in> set (butlast rs). \<exists>out. x = Inr out \<and> \<not> final_page out)
      \<and> (fst (copyS3Folder e s d t 0 maxDepth w) = Inr () \<longrightarrow>
           rs \<noteq> [] \<and> (\<exists>out. last rs = Inr out \<and> final_page out))
      \<and> (fst (copyS3Folder e s d t 0 maxDepth w) = Inr ()
           \<or> (\<exists>m. fst (copyS3Folder e s d t 0 maxDepth w) = Inl (Error m)))
      \<and> (length rs = maxDepth + 1 \<and> (\<exists>out. last rs = Inr out \<and> \<not> final_page out) \<longrightarrow>
           (\<exists>m. fst (copyS3Folder e s d t 0 maxDepth w) = Inl (Error m)))"
    unfolding pages_ok_def by auto
  with rs show ?thesis by blast
qed

theorem copyS3Folder_pagination_bounded_witness:
  "\<exists>rs. listing_results (trace (snd (copyS3Folder hostile_env ''base/x'' ''code/w1'' None 0 2 template_world)))
           = listing_results (trace template_world) @ rs
      \<and> length rs = 2 + 1 \<and> (\<exists>out. last rs = Inr out \<and> \<not> final_page out)
      \<and> (\<exists>m. fst (copyS3Folder hostile_env ''base/x'' ''code/w1'' None 0 2 template_world) = Inl (Error m))"
proof -
  from copyS3Folder_pagination_bounded [of hostile_env "''base/x''" "''code/w1''" None 2 template_world]
  obtain rs where rs: "listing_results (trace (snd (copyS3Folder hostile_env ''base/x'' ''code/w1'' None 0 2 template_world)))
           = listing_results (trace template_world) @ rs"
    and err: "length rs = 2 + 1 \<and> (\<exists>out. last rs = Inr out \<and> \<not> final_page out) \<longrightarrow>
           (\<exists>m. fst (copyS3Folder hostile_env ''base/x'' ''code/w1'' None 0 2 template_world) = Inl (Error m))"
    by blast
  have "listing_results (trace template_world) = []"
    by (simp add: template_world_def)
  with rs have "rs = [Inr truncated_page, Inr truncated_page, Inr truncated_page]"
    by (simp add: hostile_run(2))
  moreover have "\<not> final_page truncated_page"
    by (simp add: final_page_def truncated_page_def)
  ultimately have hyp: "length rs = 2 + 1 \<and> (\<exists>out. last rs = Inr out \<and> \<not> final_page out)"
    by simp
  with err rs show ?thesis by blast
qed

subsection \<open>The destination key\<close>

text \<open>
  Where the destination prefix holds no dollar sign, the key of an object under the
  source prefix is mapped to the destination prefix followed by the same suffix.
\<close>

lemma split_first_prefix: "split_first pat (pat @ sfx) = Some ([], sfx)"
proof (cases "pat @ sfx")
  case Nil
  then show ?thesis by simp
next
  case (Cons a list)
  have p: "prefix pat (a # list)" by (simp add: Cons [symmetric])
  have d: "drop (length pat) (a # list) = sfx" by (simp add: Cons [symmetric])
  have "split_first pat (a # list) = Some ([], sfx)" using p d by simp
  then show ?thesis by (simp add: Cons)
qed

lemma GetSubstitution_no_dollar:
  "CHR ''$'' \<notin> set template \<Longrightarrow> GetSubstitution matched preceding following template = template"
  by (induction matched preceding following template rule: GetSubstitution.induct) auto

lemma js_replace_prefix:
  "CHR ''$'' \<notin> set destinationPrefix \<Longrightarrow>
   js_replace (sourcePrefix @ sfx) sourcePrefix destinationPrefix = destinationPrefix @ sfx"
  by (simp add: js_replace_def split_first_prefix GetSubstitution_no_dollar)

subsection \<open>Copying twice\<close>

text \<open>
  Two stores agree on a prefix when they hold the same objects under it. A run of
  \<open>copyS3Folder\<close> is followed from two worlds at once: \<open>sim\<close> says that both runs added the
  same objects, none of them under the source prefix.
\<close>

definition agree :: "string \<Rightarrow> store \<Rightarrow> store \<Rightarrow> bool" where
  "agree src st st' = (\<forall>k. prefix src k \<longrightarrow> st k = st' k)"

definition sim :: "string \<Rightarrow> world \<Rightarrow> world \<Rightarrow> world \<Rightarrow> world \<Rightarrow> bool" where
  "sim src w w' w1 w1' =
     (\<exists>M. objects w1 = objects w ++ M \<and> objects w1' = objects w' ++ M
          \<and> (\<forall>k \<in> dom M. \<not> prefix src k))"

text \<open>
  What the proof takes from the store and from the two prefixes: a listed key lies under
  the prefix that was listed, and neither prefix is a prefix of the other (as with
  \<open>base/...\<close> and \<open>code/...\<close>), so that no destination key lies under the source prefix.
\<close>

definition key_ok :: "string \<Rightarrow> S3Object \<Rightarrow> bool" where
  "key_ok src ob = (\<forall>k. Key ob = Some k \<longrightarrow> prefix src k)"

definition apart :: "string \<Rightarrow> string \<Rightarrow> bool" where
  "apart src dst = (\<not> prefix src dst \<and> \<not> prefix dst src)"

lemma apart_destination: "apart src dst \<Longrightarrow> \<not> prefix src (dst @ sfx)"
  unfolding apart_def
  by (metis prefix_same_cases prefixI)

lemma sim_same: "objects w1 = objects w \<Longrightarrow> objects w1' = objects w' \<Longrightarrow> sim src w w' w1 w1'"
  unfolding sim_def by (rule exI [of _ Map.empty]) simp

lemma sim_trans:
  assumes "sim src w w' w1 w1'" and "sim src w1 w1' w2 w2'"
  shows "sim src w w' w2 w2'"
proof -
  from assms(1) obtain M1 where M1: "objects w1 = objects w ++ M1" "objects w1' = objects w' ++ M1"
    "\<forall>k \<in> dom M1. \<not> prefix src k" unfolding sim_def by blast
  from assms(2) obtain M2 where M2: "objects w2 = objects w1 ++ M2" "objects w2' = objects w1' ++ M2"
    "\<forall>k \<in> dom M2. \<not> prefix src k" unfolding sim_def by blast
  show ?thesis unfolding sim_def
  proof (intro exI conjI)
    show "objects w2 = objects w ++ (M1 ++ M2)" by (simp add: M1 M2)
    show "objects w2' = objects w' ++ (M1 ++ M2)" by (simp add: M1 M2)
    show "\<forall>k \<in> dom (M1 ++ M2). \<not> prefix src k" using M1(3) M2(3) by auto
  qed
qed

lemma sim_agree:
  "agree src (objects w) (objects w') \<Longrightarrow> sim src w w' w1 w1' \<Longrightarrow>
   agree src (objects w1) (objects w1')"
  unfolding agree_def sim_def by (auto simp: map_add_def split: option.splits)

lemma prefix_split: "prefix src k \<Longrightarrow> k = src @ drop (length src) k"
  by (auto simp: prefix_def)

lemma copy_object_sim:
  assumes ag: "agree src (objects w) (objects w')" and ok: "key_ok src ob"
    and ap: "apart src dst" and nd: "CHR ''$'' \<notin> set dst"
  shows "fst (copy_object e src dst ob w') = fst (copy_object e src dst ob w)
         \<and> sim src w w' (snd (copy_object e src dst ob w)) (snd (copy_object e src dst ob w'))"
proof (cases "Key ob")
  case None
  then show ?thesis by (simp add: copy_object_def sim_same)
next
  case (Some k)
  show ?thesis
  proof (cases "k = []")
    case True
    with Some show ?thesis by (simp add: copy_object_def sim_same)
  next
    case False
    from ok Some have pk: "prefix src k" by (simp add: key_ok_def)
    define sfx where "sfx = drop (length src) k"
    have k: "k = src @ sfx" unfolding sfx_def using pk by (rule prefix_split)
    have dk: "js_replace k src dst = dst @ sfx"
      unfolding k using nd by (rule js_replace_prefix)
    have same: "objects w k = objects w' k" using ag pk by (simp add: agree_def)
    show ?thesis
    proof (cases "copyObject_error e k (dst @ sfx)")
      case (Some err)
      with \<open>Key ob = Some k\<close> False dk show ?thesis
        by (simp add: copy_object_def s3_copyObject_def Let_def sim_same)
    next
      case None
      show ?thesis
      proof (cases "objects w k")
        case None
        with \<open>copyObject_error e k (dst @ sfx) = None\<close> \<open>Key ob = Some k\<close> False dk same
        show ?thesis
          by (simp add: copy_object_def s3_copyObject_def Let_def sim_same)
      next
        case (Some body)
        have "sim src w w' (w\<lparr>objects := (objects w)(dst @ sfx \<mapsto> body)\<rparr>)
                (w'\<lparr>objects := (objects w')(dst @ sfx \<mapsto> body)\<rparr>)"
          unfolding sim_def
          by (rule exI [of _ "[dst @ sfx \<mapsto> body]"])
             (simp add: apart_destination [OF ap])
        then have "sim src w w' (snd (copy_object e src dst ob w)) (snd (copy_object e src dst ob w'))"
          using Some \<open>copyObject_error e k (dst @ sfx) = None\<close> \<open>Key ob = Some k\<close> False dk same
          by (simp add: copy_object_def s3_copyObject_def Let_def sim_def)
        moreover have "fst (copy_object e src dst ob w') = fst (copy_object e src dst ob w)"
          using Some \<open>copyObject_error e k (dst @ sfx) = None\<close> \<open>Key ob = Some k\<close> False dk same
          by (simp add: copy_object_def s3_copyObject_def Let_def)
        ultimately show ?thesis by simp
      qed
    qed
  qed
qed


lemma copy_chunk_sim:
  assumes ap: "apart src dst" and nd: "CHR ''$'' \<notin> set dst"
  shows "agree src (objects w) (objects w') \<Longrightarrow> \<forall>ob \<in> set objs. key_ok src ob \<Longrightarrow>
         fst (copy_chunk e src dst objs w') = fst (copy_chunk e src dst objs w)
         \<and> sim src w w' (snd (copy_chunk e src dst objs w)) (snd (copy_chunk e src dst objs w'))"
proof (induction objs arbitrary: w w')
  case Nil
  show ?case by (simp add: sim_same)
next
  case (Cons ob objs)
  obtain r1 w1 where c1: "copy_object e src dst ob w = (r1, w1)" by (cases "copy_object e src dst ob w")
  obtain r1' w1' where c1': "copy_object e src dst ob w' = (r1', w1')"
    by (cases "copy_object e src dst ob w'")
  from copy_object_sim [OF Cons.prems(1) _ ap nd, of ob e] Cons.prems(2) c1 c1'
  have r1: "r1' = r1" and s1: "sim src w w' w1 w1'" by simp_all
  note ag1 = sim_agree [OF Cons.prems(1) s1]
  obtain r2 w2 where c2: "copy_chunk e src dst objs w1 = (r2, w2)"
    by (cases "copy_chunk e src dst objs w1")
  obtain r2' w2' where c2': "copy_chunk e src dst objs w1' = (r2', w2')"
    by (cases "copy_chunk e src dst objs w1'")
  from Cons.IH [OF ag1] Cons.prems(2) c2 c2'
  have r2: "r2' = r2" and s2: "sim src w1 w1' w2 w2'" by simp_all
  from sim_trans [OF s1 s2] r1 r2 show ?case by (simp add: c1 c1' c2 c2')
qed

lemma copy_chunks_sim:
  assumes ap: "apart src dst" and nd: "CHR ''$'' \<notin> set dst"
  shows "agree src (objects w) (objects w') \<Longrightarrow> \<forall>c \<in> set cs. \<forall>ob \<in> set c. key_ok src ob \<Longrightarrow>
         fst (copy_chunks e src dst cs w') = fst (copy_chunks e src dst cs w)
         \<and> sim src w w' (snd (copy_chunks e src dst cs w)) (snd (copy_chunks e src dst cs w'))"
proof (induction cs arbitrary: w w')
  case Nil
  show ?case by (simp add: sim_same)
next
  case (Cons c cs)
  obtain r1 w1 where c1: "copy_chunk e src dst c w = (r1, w1)" by (cases "copy_chunk e src dst c w")
  obtain r1' w1' where c1': "copy_chunk e src dst c w' = (r1', w1')"
    by (cases "copy_chunk e src dst c w'")
  from copy_chunk_sim [OF ap nd Cons.prems(1), of c e] Cons.prems(2) c1 c1'
  have r1: "r1' = r1" and s1: "sim src w w' w1 w1'" by simp_all
  show ?case
  proof (cases r1)
    case (Some err)
    with r1 s1 show ?thesis by (simp add: c1 c1')
  next
    case None
    note ag1 = sim_agree [OF Cons.prems(1) s1]
    from Cons.IH [OF ag1] Cons.prems(2)
    have "fst (copy_chunks e src dst cs w1') = fst (copy_chunks e src dst cs w1)
         \<and> sim src w1 w1' (snd (copy_chunks e src dst cs w1)) (snd (copy_chunks e src dst cs w1'))"
      by simp
    with sim_trans [OF s1] None r1 show ?thesis by (simp add: c1 c1')
  qed
qed

lemma chunked_subset: "c \<in> set (chunked n xs) \<Longrightarrow> set c \<subseteq> set xs"
proof (induction n xs rule: chunked.induct)
  case (1 n xs)
  show ?case
  proof (cases "n = 0 \<or> xs = []")
    case True
    with "1.prems" show ?thesis by (simp add: chunked.simps [of n xs])
  next
    case False
    with "1.prems" consider "c = take n xs" | "c \<in> set (chunked n (drop n xs))"
      by (auto simp: chunked.simps [of n xs])
    then show ?thesis
    proof cases
      case 1
      then show ?thesis by (simp add: set_take_subset)
    next
      case 2
      with "1.IH" False have "set c \<subseteq> set (drop n xs)" by simp
      then show ?thesis using set_drop_subset [of n xs] by blast
    qed
  qed
qed

text \<open>
  The store's part of the contract: the answer to a listing of a prefix depends only on
  the objects under that prefix, and lists only keys under it.
\<close>

definition lister_local :: "env \<Rightarrow> string \<Rightarrow> bool" where
  "lister_local e src =
     (\<forall>st st' t. agree src st st' \<longrightarrow> listObjectsV2 e st src t = listObjectsV2 e st' src t)"

definition lister_prefix :: "env \<Rightarrow> string \<Rightarrow> bool" where
  "lister_prefix e src =
     (\<forall>st t out objs. listObjectsV2 e st src t = Inr out \<longrightarrow> Contents out = Some objs \<longrightarrow>
        (\<forall>ob \<in> set objs. key_ok src ob))"

lemma catch_copy_objects: "objects (snd (catch_copy rw)) = objects (snd rw)"
  by (auto simp: catch_copy_def split: prod.splits sum.splits thrown.splits)

lemma catch_copy_fst_cong: "fst rw' = fst rw \<Longrightarrow> fst (catch_copy rw') = fst (catch_copy rw)"
  by (cases rw, cases rw') (auto simp: catch_copy_def split: sum.splits thrown.splits)

lemma sim_cong:
  "objects a = objects w1 \<Longrightarrow> objects a' = objects w1' \<Longrightarrow> objects b = objects w \<Longrightarrow>
   objects b' = objects w' \<Longrightarrow> sim src w w' w1 w1' \<Longrightarrow> sim src b b' a a'"
  by (simp add: sim_def)

lemma listed_world_objects: "objects (listed_world e s t w) = objects w"
  by (simp add: listed_world_def)

lemma sim_catch:
  assumes "fst rw' = fst rw" and "sim s w w' (snd rw) (snd rw')"
  shows "fst (catch_copy rw') = fst (catch_copy rw)
         \<and> sim s w w' (snd (catch_copy rw)) (snd (catch_copy rw'))"
  using assms catch_copy_fst_cong [OF assms(1)]
  by (simp add: sim_def catch_copy_objects)

text \<open>
  From two worlds that agree on the source prefix, \<open>copyS3Folder\<close> takes the same branches,
  ends with the same outcome and adds the same objects.
\<close>

lemma copyS3Folder_sim:
  assumes ll: "lister_local e s" and lp: "lister_prefix e s"
    and ap: "apart s d" and nd: "CHR ''$'' \<notin> set d"
  shows "agree s (objects w) (objects w') \<Longrightarrow>
         fst (copyS3Folder e s d t depth maxDepth w') = fst (copyS3Folder e s d t depth maxDepth w)
         \<and> sim s w w' (snd (copyS3Folder e s d t depth maxDepth w))
                      (snd (copyS3Folder e s d t depth maxDepth w'))"
  using assms
proof (induction e s d t depth maxDepth w arbitrary: w' rule: copyS3Folder.induct)
  case (1 e s d t depth maxDepth w)
  note ag = "1.prems"(1) and ll = "1.prems"(2) and lp = "1.prems"(3)
    and ap = "1.prems"(4) and nd = "1.prems"(5)
  let ?w0 = "listed_world e s t w"
  let ?w0' = "listed_world e s t w'"
  let ?listing = "listObjectsV2 e (objects w) s t"
  have same_listing: "listObjectsV2 e (objects w') s t = ?listing"
    using ll ag unfolding lister_local_def by (metis)
  have ag0: "agree s (objects ?w0) (objects ?w0')"
    using ag by (simp add: listed_world_objects)
  have lift: "sim s w w' a a'" if "sim s ?w0 ?w0' a a'" for a a'
    using that by (simp add: sim_def listed_world_objects)
  show ?case
  proof (cases "falsy (S3_BUCKET e)")
    case True
    then show ?thesis
      by (simp add: copyS3Folder.simps [of e s d t depth maxDepth] sim_same)
  next
    case bucket: False
    show ?thesis
    proof (cases "maxDepth < depth")
      case True
      show ?thesis
        by (simp add: copyS3Folder_too_deep [OF bucket True] sim_same)
    next
      case deep: False
      show ?thesis
      proof (cases ?listing)
        case (Inl err)
        with same_listing have Inl': "listObjectsV2 e (objects w') s t = Inl err" by simp
        show ?thesis
          unfolding copyS3Folder_list_error [OF bucket deep Inl]
            copyS3Folder_list_error [OF bucket deep Inl']
          by (rule sim_catch) (simp_all add: list_failed_def sim_same listed_world_objects)
      next
        case (Inr out)
        with same_listing have Inr': "listObjectsV2 e (objects w') s t = Inr out" by simp
        show ?thesis
        proof (cases "Contents out = None \<or> Contents out = Some []")
          case True
          show ?thesis
            unfolding copyS3Folder_no_files [OF bucket deep Inr True]
              copyS3Folder_no_files [OF bucket deep Inr' True]
            by (rule sim_catch) (simp_all add: no_files_found_def sim_same listed_world_objects)
        next
          case False
          then obtain objs where objs: "Contents out = Some objs" "objs \<noteq> []" by auto
          have keys: "\<forall>c \<in> set (chunked maxConcurrency objs). \<forall>ob \<in> set c. key_ok s ob"
            using lp Inr objs(1) chunked_subset unfolding lister_prefix_def by blast
          obtain rc w1 where cc: "copy_chunks e s d (chunked maxConcurrency objs) ?w0 = (rc, w1)"
            by (cases "copy_chunks e s d (chunked maxConcurrency objs) ?w0")
          obtain rc' w1' where cc': "copy_chunks e s d (chunked maxConcurrency objs) ?w0' = (rc', w1')"
            by (cases "copy_chunks e s d (chunked maxConcurrency objs) ?w0'")
          from copy_chunks_sim [OF ap nd ag0 keys, of e] cc cc'
          have rc: "rc' = rc" and s1: "sim s ?w0 ?w0' w1 w1'" by simp_all
          note s1w = lift [OF s1]
          show ?thesis
          proof (cases rc)
            case (Some err)
            with cc cc' rc
            have c1: "copy_chunks e s d (chunked maxConcurrency objs) ?w0 = (Some err, w1)"
              and c1': "copy_chunks e s d (chunked maxConcurrency objs) ?w0' = (Some err, w1')"
              by simp_all
            show ?thesis
              unfolding copyS3Folder_copy_error [OF bucket deep Inr objs c1]
                copyS3Folder_copy_error [OF bucket deep Inr' objs c1']
              by (rule sim_catch) (simp_all add: s1w)
          next
            case None
            with cc cc' rc
            have c1: "copy_chunks e s d (chunked maxConcurrency objs) ?w0 = (None, w1)"
              and c1': "copy_chunks e s d (chunked maxConcurrency objs) ?w0' = (None, w1')"
              by simp_all
            show ?thesis
            proof (cases "IsTruncated out")
              case False
              show ?thesis
                unfolding copyS3Folder_last_page [OF bucket deep Inr objs c1 False]
                  copyS3Folder_last_page [OF bucket deep Inr' objs c1' False]
                by (rule sim_catch) (simp_all add: s1w)
            next
              case True
              let ?rec = "copyS3Folder e s d (NextContinuationToken out) (depth + 1) maxDepth w1"
              let ?rec' = "copyS3Folder e s d (NextContinuationToken out) (depth + 1) maxDepth w1'"
              have ag1: "agree s (objects w1) (objects w1')"
                using sim_agree [OF ag s1w] .
              have "fst ?rec' = fst ?rec \<and> sim s w1 w1' (snd ?rec) (snd ?rec')"
                using bucket deep Inr objs c1 True ag1 ll lp ap nd
                by (intro "1.IH" [where x = ?listing and xa = ?w0 and b = out and ?x2.0 = objs
                      and xb = None and y = w1])
                   (simp_all add: listed_world_def)
              then have f: "fst ?rec' = fst ?rec" and s2: "sim s w w' (snd ?rec) (snd ?rec')"
                using sim_trans [OF s1w] by simp_all
              show ?thesis
                unfolding copyS3Folder_next_page [OF bucket deep Inr objs c1 True]
                  copyS3Folder_next_page [OF bucket deep Inr' objs c1' True]
                using f s2 by (rule sim_catch)
            qed
          qed
        qed
      qed
    qed
  qed
qed

lemma map_add_twice: "(m ++ M) ++ M = m ++ M"
  by (rule ext) (simp add: map_add_def split: option.splits)

text \<open>
  For a destination prefix without a dollar sign: running the same copy a second time
  ends as the first run did and leaves the bucket as the first run left it.
\<close>

lemma copyS3Folder_idempotent:
  assumes ll: "lister_local e s" and lp: "lister_prefix e s"
    and ap: "apart s d" and nd: "CHR ''$'' \<notin> set d"
  shows "fst (copyS3Folder e s d t depth maxDepth (snd (copyS3Folder e s d t depth maxDepth w)))
           = fst (copyS3Folder e s d t depth maxDepth w)
         \<and> objects (snd (copyS3Folder e s d t depth maxDepth
                            (snd (copyS3Folder e s d t depth maxDepth w))))
           = objects (snd (copyS3Folder e s d t depth maxDepth w))"
proof -
  let ?w1 = "snd (copyS3Folder e s d t depth maxDepth w)"
  let ?w2 = "snd (copyS3Folder e s d t depth maxDepth ?w1)"
  have "agree s (objects w) (objects w)" by (simp add: agree_def)
  from copyS3Folder_sim [OF ll lp ap nd this, of t depth maxDepth]
  have "sim s w w ?w1 ?w1" by simp
  then have ag: "agree s (objects w) (objects ?w1)"
    unfolding sim_def agree_def by (auto simp: map_add_def split: option.splits)
  from copyS3Folder_sim [OF ll lp ap nd ag, of t depth maxDepth]
  have f: "fst (copyS3Folder e s d t depth maxDepth ?w1) = fst (copyS3Folder e s d t depth maxDepth w)"
    and "sim s w ?w1 ?w1 ?w2" by simp_all
  then obtain M where "objects ?w1 = objects w ++ M" "objects ?w2 = objects ?w1 ++ M"
    unfolding sim_def by blast
  then have "objects ?w2 = objects ?w1" by (metis map_add_twice)
  with f show ?thesis by simp
qed

subsection \<open>Every listed object is copied\<close>

text \<open>The non-empty keys of a page's objects, and the keys listed by the answers of a run.\<close>

definition object_keys :: "S3Object list \<Rightarrow> string set" where
  "object_keys objs = {k. \<exists>ob \<in> set objs. Key ob = Some k \<and> k \<noteq> []}"

definition listed_keys :: "(thrown + ListObjectsV2Output) list \<Rightarrow> string set" where
  "listed_keys rs =
     {k. \<exists>out objs. Inr out \<in> set rs \<and> Contents out = Some objs \<and> k \<in> object_keys objs}"

text \<open>
  The state of the bucket during a run that started from the store \<open>st0\<close>: the objects
  under the source prefix are untouched, and every key of \<open>W\<close> has its object at the
  destination prefix followed by the key's suffix.
\<close>

definition copied :: "string \<Rightarrow> string \<Rightarrow> store \<Rightarrow> string set \<Rightarrow> store \<Rightarrow> bool" where
  "copied src dst st0 W st =
     ((\<forall>k. prefix src k \<longrightarrow> st k = st0 k)
      \<and> (\<forall>k \<in> W. prefix src k \<and> st0 k \<noteq> None \<and> st (dst @ drop (length src) k) = st0 k))"

lemma object_keys_simps [simp]:
  "object_keys [] = {}"
  "object_keys (ob # objs) = {k. Key ob = Some k \<and> k \<noteq> []} \<union> object_keys objs"
  "object_keys (xs @ ys) = object_keys xs \<union> object_keys ys"
  by (auto simp: object_keys_def)

lemma listed_keys_simps [simp]:
  "listed_keys [] = {}"
  "listed_keys (Inl err # rs) = listed_keys rs"
  "listed_keys (Inr out # rs)
     = (case Contents out of None \<Rightarrow> {} | Some objs \<Rightarrow> object_keys objs) \<union> listed_keys rs"
  by (auto simp: listed_keys_def split: option.splits)

lemma copy_object_copied:
  assumes good: "copied src dst st0 W (objects w)" and ok: "key_ok src ob"
    and ap: "apart src dst" and nd: "CHR ''$'' \<notin> set dst"
    and res: "copy_object e src dst ob w = (None, w1)"
  shows "copied src dst st0 (W \<union> {k. Key ob = Some k \<and> k \<noteq> []}) (objects w1)"
proof (cases "Key ob")
  case None
  then have none: "{k. Key ob = Some k \<and> k \<noteq> []} = {}" by simp
  from None res have "w1 = w" by (simp add: copy_object_def)
  with good show ?thesis unfolding none by simp
next
  case (Some k)
  show ?thesis
  proof (cases "k = []")
    case True
    with Some have none: "{k'. Key ob = Some k' \<and> k' \<noteq> []} = {}" by simp
    from Some True res have "w1 = w" by (simp add: copy_object_def)
    with good show ?thesis unfolding none by simp
  next
    case False
    from ok Some have pk: "prefix src k" by (simp add: key_ok_def)
    define sfx where "sfx = drop (length src) k"
    have k: "k = src @ sfx" unfolding sfx_def using pk by (rule prefix_split)
    have dk: "js_replace k src dst = dst @ sfx"
      unfolding k using nd by (rule js_replace_prefix)
    from res Some False dk obtain body where body: "objects w k = Some body"
      and w1: "objects w1 = (objects w)(dst @ sfx \<mapsto> body)"
      by (auto simp: copy_object_def s3_copyObject_def Let_def split: option.splits)
    from good pk body have b0: "st0 k = Some body" by (simp add: copied_def)
    have keys: "{k'. Key ob = Some k' \<and> k' \<noteq> []} = {k}" using Some False by auto
    show ?thesis
      unfolding copied_def keys
    proof (intro conjI allI impI ballI)
      fix k' assume "prefix src k'"
      moreover then have "k' \<noteq> dst @ sfx" using apart_destination [OF ap] by auto
      moreover have "objects w k' = st0 k'" using good \<open>prefix src k'\<close> unfolding copied_def by blast
      ultimately show "objects w1 k' = st0 k'" unfolding w1 by simp
    next
      fix k' assume k': "k' \<in> W \<union> {k}"
      have old: "prefix src x \<and> st0 x \<noteq> None \<and> objects w (dst @ drop (length src) x) = st0 x"
        if "x \<in> W" for x using good that unfolding copied_def by blast
      from k' have or: "k' \<in> W \<or> k' = k" by blast
      show pk': "prefix src k'" using or old pk by blast
      show "st0 k' \<noteq> None" using or old b0 by auto
      show "objects w1 (dst @ drop (length src) k') = st0 k'"
      proof (cases "drop (length src) k' = sfx")
        case True
        then have "k' = k" using prefix_split [OF pk'] k by simp
        with True b0 show ?thesis by (simp add: w1)
      next
        case False
        with or have "k' \<in> W" by (auto simp: sfx_def)
        then have "objects w (dst @ drop (length src) k') = st0 k'" using old by blast
        moreover have "dst @ drop (length src) k' \<noteq> dst @ sfx" using False by simp
        ultimately show ?thesis unfolding w1 by simp
      qed
    qed
  qed
qed

lemma copy_chunk_copied:
  assumes ap: "apart src dst" and nd: "CHR ''$'' \<notin> set dst"
  shows "copied src dst st0 W (objects w) \<Longrightarrow> \<forall>ob \<in> set objs. key_ok src ob \<Longrightarrow>
         copy_chunk e src dst objs w = (None, w1) \<Longrightarrow>
         copied src dst st0 (W \<union> object_keys objs) (objects w1)"
proof (induction objs arbitrary: w W)
  case Nil
  then show ?case by simp
next
  case (Cons ob objs)
  obtain r1 wa where c1: "copy_object e src dst ob w = (r1, wa)" by (cases "copy_object e src dst ob w")
  obtain r2 wb where c2: "copy_chunk e src dst objs wa = (r2, wb)"
    by (cases "copy_chunk e src dst objs wa")
  from Cons.prems(3) c1 c2 have r: "r1 = None" "r2 = None" and wb: "wb = w1"
    by (auto split: option.splits)
  from copy_object_copied [OF Cons.prems(1) _ ap nd, of ob e wa] Cons.prems(2) c1 r(1)
  have "copied src dst st0 (W \<union> {k. Key ob = Some k \<and> k \<noteq> []}) (objects wa)" by simp
  from Cons.IH [OF this, of ] Cons.prems(2) c2 r(2) wb
  show ?case by (simp add: Un_assoc)
qed

lemma copy_chunks_copied:
  assumes ap: "apart src dst" and nd: "CHR ''$'' \<notin> set dst"
  shows "copied src dst st0 W (objects w) \<Longrightarrow> \<forall>c \<in> set cs. \<forall>ob \<in> set c. key_ok src ob \<Longrightarrow>
         copy_chunks e src dst cs w = (None, w1) \<Longrightarrow>
         copied src dst st0 (W \<union> object_keys (concat cs)) (objects w1)"
proof (induction cs arbitrary: w W)
  case Nil
  then show ?case by simp
next
  case (Cons c cs)
  obtain r1 wa where c1: "copy_chunk e src dst c w = (r1, wa)" by (cases "copy_chunk e src dst c w")
  from Cons.prems(3) c1 have r: "r1 = None" and c2: "copy_chunks e src dst cs wa = (None, w1)"
    by (auto split: option.splits)
  from copy_chunk_copied [OF ap nd Cons.prems(1), of c e wa] Cons.prems(2) c1 r
  have "copied src dst st0 (W \<union> object_keys c) (objects wa)" by simp
  from Cons.IH [OF this _ c2] Cons.prems(2)
  show ?case by (simp add: Un_assoc)
qed

lemma concat_chunked: "0 < n \<Longrightarrow> concat (chunked n xs) = xs"
proof (induction n xs rule: chunked.induct)
  case (1 n xs)
  show ?case
  proof (cases "xs = []")
    case True
    then show ?thesis by (simp add: chunked.simps [of n "[]"])
  next
    case False
    with "1.prems" "1.IH" show ?thesis by (simp add: chunked.simps [of n xs])
  qed
qed


lemma copyS3Folder_copied:
  assumes lp: "lister_prefix e s" and ap: "apart s d" and nd: "CHR ''$'' \<notin> set d"
  shows "copied s d st0 W (objects w) \<Longrightarrow>
         fst (copyS3Folder e s d t depth maxDepth w) = Inr () \<Longrightarrow>
         \<exists>rs. listing_results (trace (snd (copyS3Folder e s d t depth maxDepth w)))
                = listing_results (trace w) @ rs
              \<and> copied s d st0 (W \<union> listed_keys rs)
                  (objects (snd (copyS3Folder e s d t depth maxDepth w)))"
  using assms
proof (induction e s d t depth maxDepth w arbitrary: W rule: copyS3Folder.induct)
  case (1 e s d t depth maxDepth w)
  note good = "1.prems"(1) and ok = "1.prems"(2) and lp = "1.prems"(3)
    and ap = "1.prems"(4) and nd = "1.prems"(5)
  let ?run = "copyS3Folder e s d t depth maxDepth w"
  let ?lw = "listed_world e s t w"
  have lw_objects: "objects ?lw = objects w" by (simp add: listed_world_def)
  from ok copyS3Folder_no_bucket [of e s d t depth maxDepth w]
  have bucket: "\<not> falsy (S3_BUCKET e)" by auto
  from ok bucket copyS3Folder_too_deep [of e maxDepth depth s d t w]
  have deep: "\<not> maxDepth < depth" by auto
  show ?case
  proof (cases "listObjectsV2 e (objects w) s t")
    case (Inl err)
    from copyS3Folder_list_error [OF bucket deep Inl] ok catch_copy_ok [of "list_failed err ?lw" "()"]
    show ?thesis by (simp add: list_failed_def)
  next
    case (Inr out)
    show ?thesis
    proof (cases "Contents out = None \<or> Contents out = Some []")
      case True
      have run: "?run = catch_copy (Inr (), no_files_found s ?lw)"
        using bucket deep Inr True by (rule copyS3Folder_no_files)
      have "listing_results (trace (snd ?run)) = listing_results (trace w) @ [Inr out]"
        by (simp add: run catch_copy_trace no_files_found_def listed_world_def Inr)
      moreover have "listed_keys [Inr out] = {}" using True by auto
      moreover have "objects (snd ?run) = objects w"
        by (simp add: run catch_copy_objects no_files_found_def listed_world_def)
      ultimately show ?thesis using good by (intro exI [of _ "[Inr out]"]) simp
    next
      case False
      then obtain objs where objs: "Contents out = Some objs" "objs \<noteq> []" by auto
      obtain r w1 where cc: "copy_chunks e s d (chunked maxConcurrency objs) ?lw = (r, w1)"
        by (cases "copy_chunks e s d (chunked maxConcurrency objs) ?lw")
      note listed = lp [unfolded lister_prefix_def, rule_format, OF Inr objs(1)]
      have keys: "\<forall>c \<in> set (chunked maxConcurrency objs). \<forall>ob \<in> set c. key_ok s ob"
        using listed chunked_subset by (meson subsetD)
      have lr1: "listing_results (trace w1) = listing_results (trace w) @ [Inr out]"
        using copy_chunks_listings [of e s d "chunked maxConcurrency objs" ?lw] cc
        by (simp add: listed_world_results Inr)
      have lk: "listed_keys [Inr out] = object_keys objs" using objs(1) by simp
      show ?thesis
      proof (cases r)
        case (Some err)
        from copyS3Folder_copy_error [OF bucket deep Inr objs cc [unfolded Some]] ok
          catch_copy_ok [of "(Inl err, w1)" "()"]
        show ?thesis by simp
      next
        case None
        have good1: "copied s d st0 (W \<union> object_keys objs) (objects w1)"
          using copy_chunks_copied [OF ap nd _ keys cc [unfolded None], of st0 W] good
          by (simp add: lw_objects concat_chunked maxConcurrency_def)
        show ?thesis
        proof (cases "IsTruncated out")
          case False
          have run: "?run = catch_copy (Inr (), w1)"
            using bucket deep Inr objs cc [unfolded None] False by (rule copyS3Folder_last_page)
          show ?thesis using good1 lr1 lk
            by (intro exI [of _ "[Inr out]"]) (simp add: run catch_copy_trace catch_copy_objects)
        next
          case True
          let ?rec = "copyS3Folder e s d (NextContinuationToken out) (depth + 1) maxDepth w1"
          have run: "?run = catch_copy ?rec"
            using bucket deep Inr objs cc [unfolded None] True by (rule copyS3Folder_next_page)
          from ok run catch_copy_ok [of ?rec "()"] have ok': "fst ?rec = Inr ()" by simp
          have "\<exists>rs. listing_results (trace (snd ?rec)) = listing_results (trace w1) @ rs
                  \<and> copied s d st0 ((W \<union> object_keys objs) \<union> listed_keys rs) (objects (snd ?rec))"
            using bucket deep Inr objs cc [unfolded None] True good1 ok' lp ap nd
            by (intro "1.IH" [where x = "listObjectsV2 e (objects w) s t" and xa = ?lw and b = out
                  and ?x2.0 = objs and xb = None and y = w1 and W = "W \<union> object_keys objs"])
               (simp_all add: listed_world_def)
          then obtain rs where rs: "listing_results (trace (snd ?rec)) = listing_results (trace w1) @ rs"
            and g: "copied s d st0 ((W \<union> object_keys objs) \<union> listed_keys rs) (objects (snd ?rec))"
            by blast
          have "listed_keys (Inr out # rs) = object_keys objs \<union> listed_keys rs"
            using objs(1) by simp
          with g rs lr1 show ?thesis
            by (intro exI [of _ "Inr out # rs"])
               (simp add: run catch_copy_trace catch_copy_objects Un_assoc)
        qed
      qed
    qed
  qed
qed


text \<open>
  For a destination prefix without a dollar sign: after a successful run every key that
  the listing answers of the run named has its object, as it was before the run, at the
  destination prefix followed by the part of the key after the source prefix.
\<close>

lemma copyS3Folder_copies_listed:
  assumes lp: "lister_prefix e s" and ap: "apart s d" and nd: "CHR ''$'' \<notin> set d"
    and ok: "fst (copyS3Folder e s d t depth maxDepth w) = Inr ()"
  shows "\<exists>rs. listing_results (trace (snd (copyS3Folder e s d t depth maxDepth w)))
                = listing_results (trace w) @ rs
              \<and> (\<forall>k \<in> listed_keys rs.
                    objects w k \<noteq> None
                    \<and> objects (snd (copyS3Folder e s d t depth maxDepth w))
                        (d @ drop (length s) k) = objects w k)"
proof -
  have "copied s d (objects w) {} (objects w)" by (simp add: copied_def)
  from copyS3Folder_copied [OF lp ap nd this ok]
  obtain rs where "listing_results (trace (snd (copyS3Folder e s d t depth maxDepth w)))
                     = listing_results (trace w) @ rs"
    and "copied s d (objects w) (listed_keys rs)
           (objects (snd (copyS3Folder e s d t depth maxDepth w)))"
    by auto
  then show ?thesis unfolding copied_def by blast
qed

subsection \<open>A destination prefix with a dollar sign\<close>

definition one_page :: ListObjectsV2Output where
  "one_page =
     \<lparr>Contents = Some [\<lparr>Key = Some ''base/node-js/index.js''\<rparr>], IsTruncated = False,
      NextContinuationToken = None\<rparr>"

definition one_page_env :: env where
  "one_page_env =
     \<lparr>S3_BUCKET = Some ''bucket'', writeFile_error = (\<lambda>_. None), putObject_error = (\<lambda>_. None),
      copyObject_error = (\<lambda>_ _. None), listObjectsV2 = (\<lambda>st p t. Inr one_page)\<rparr>"

definition node_template :: world where
  "node_template =
     \<lparr>local_files = Map.empty, objects = [''base/node-js/index.js'' \<mapsto> ''console.log(1)''],
      console = [], trace = []\<rparr>"

text \<open>The conditions hold for the template \<open>base/node-js\<close> and the workspace \<open>code/w1\<close>.\<close>

lemma copyS3Folder_idempotent_example:
  "objects (snd (copyS3Folder one_page_env ''base/node-js'' ''code/w1'' None 0 10
                   (snd (copyS3Folder one_page_env ''base/node-js'' ''code/w1'' None 0 10
                           node_template))))
     = objects (snd (copyS3Folder one_page_env ''base/node-js'' ''code/w1'' None 0 10 node_template))"
proof -
  have "lister_local one_page_env ''base/node-js''"
    by (simp add: lister_local_def one_page_env_def)
  moreover have "lister_prefix one_page_env ''base/node-js''"
    by (auto simp: lister_prefix_def one_page_env_def one_page_def key_ok_def)
  moreover have "apart ''base/node-js'' ''code/w1''"
    by (simp add: apart_def)
  moreover have "CHR ''$'' \<notin> set ''code/w1''"
    by simp
  ultimately show ?thesis
    using copyS3Folder_idempotent by blast
qed

lemma copyS3Folder_copies_example:
  "objects (snd (copyS3Folder one_page_env ''base/node-js'' ''code/w1'' None 0 10 node_template))
     ''code/w1/index.js'' = Some ''console.log(1)''"
  by (simp add: copyS3Folder.simps [of _ _ _ _ 0] one_page_env_def node_template_def one_page_def
      falsy_def chunked.simps [of _ "[_]"] chunked.simps [of _ "[]"] maxConcurrency_def
      copy_object_def s3_copyObject_def js_replace_def catch_copy_def Let_def)

text \<open>
  C8, evaluated at a workspace id with a dollar pattern. The template \<open>base/node-js\<close>
  holds one object, the listing is one page, and the copy for the workspace \<open>a$$b\<close>
  succeeds. The object is copied to \<open>code/a$b/index.js\<close>: after the successful run no
  object exists under the destination prefix \<open>code/a$$b\<close> that the caller asked for.
\<close>

theorem copyS3Folder_dollar_in_destination:
  "fst (copyS3Folder one_page_env ''base/node-js'' ''code/a$$b'' None 0 10 node_template) = Inr ()
   \<and> objects (snd (copyS3Folder one_page_env ''base/node-js'' ''code/a$$b'' None 0 10 node_template))
        ''code/a$$b/index.js'' = None
   \<and> objects (snd (copyS3Folder one_page_env ''base/node-js'' ''code/a$$b'' None 0 10 node_template))
        ''code/a$b/index.js'' = Some ''console.log(1)''"
  by (simp add: copyS3Folder.simps [of _ _ _ _ 0] one_page_env_def node_template_def one_page_def
      falsy_def chunked.simps [of _ "[_]"] chunked.simps [of _ "[]"] maxConcurrency_def
      copy_object_def s3_copyObject_def js_replace_def catch_copy_def Let_def)

section \<open>The client's accumulated listing (CodingPage.tsx)\<close>

text \<open>
  \<^verbatim>\<open>interface RemoteFile { type: "file" | "dir"; name: string; path: string; }\<close>: an entry
  of a directory listing, as \<^verbatim>\<open>fetchDir\<close> sends it.
\<close>

datatype RemoteType = TypeFile | TypeDir

record RemoteFile =
  rtype :: RemoteType
  rname :: string
  rpath :: string

text \<open>\<^verbatim>\<open>Array.prototype.findIndex\<close>: the first index whose element passes, or -1.\<close>

fun findIndex :: "('a \<Rightarrow> bool) \<Rightarrow> 'a list \<Rightarrow> int" where
  "findIndex P [] = - 1"
| "findIndex P (x # xs) =
     (if P x then 0 else (let i = findIndex P xs in if i = - 1 then - 1 else i + 1))"

text \<open>\<^verbatim>\<open>Array.prototype.filter\<close> with a callback that takes the element, its index and the array.\<close>

definition filter_indexed :: "('a \<Rightarrow> nat \<Rightarrow> 'a list \<Rightarrow> bool) \<Rightarrow> 'a list \<Rightarrow> 'a list" where
  "filter_indexed f self = map snd (filter (\<lambda>(index, x). f x index self) (enumerate 0 self))"

text \<open>
  The state update of \<^verbatim>\<open>onSelect\<close> for a directory, with \<open>prev\<close> the accumulated entries and
  \<open>data\<close> the answer to \<^verbatim>\<open>fetchDir\<close>:
  \<^verbatim>\<open>
  const allFiles = [...prev, ...data];
  return allFiles.filter((file, index, self) =>
      index === self.findIndex(f => f.path === file.path));
  \<close>
\<close>

definition mergeFetched :: "RemoteFile list \<Rightarrow> RemoteFile list \<Rightarrow> RemoteFile list" where
  "mergeFetched prev data =
     (let allFiles = prev @ data
      in filter_indexed (\<lambda>file index self. int index = findIndex (\<lambda>f. rpath f = rpath file) self)
           allFiles)"

text \<open>\<open>first_at P xs i\<close>: \<open>i\<close> is the first index of \<open>xs\<close> whose element passes \<open>P\<close>.\<close>

definition first_at :: "('a \<Rightarrow> bool) \<Rightarrow> 'a list \<Rightarrow> nat \<Rightarrow> bool" where
  "first_at P xs i = (i < length xs \<and> P (xs ! i) \<and> (\<forall>j<i. \<not> P (xs ! j)))"

definition first_here :: "RemoteFile list \<Rightarrow> nat \<Rightarrow> bool" where
  "first_here xs i = first_at (\<lambda>f. rpath f = rpath (xs ! i)) xs i"

definition keep_first :: "RemoteFile list \<Rightarrow> RemoteFile list" where
  "keep_first xs = map ((!) xs) (filter (first_here xs) [0..<length xs])"

text \<open>The tree \<open>{a/, a/x.txt, b.txt}\<close>: the listing of the root and the listing of \<open>a\<close>.\<close>

definition root_listing :: "RemoteFile list" where
  "root_listing = [\<lparr>rtype = TypeDir, rname = ''a'', rpath = ''/a''\<rparr>,
                   \<lparr>rtype = TypeFile, rname = ''b.txt'', rpath = ''/b.txt''\<rparr>]"

definition a_listing :: "RemoteFile list" where
  "a_listing = [\<lparr>rtype = TypeFile, rname = ''x.txt'', rpath = ''/a/x.txt''\<rparr>]"

lemma findIndex_ge: "- 1 \<le> findIndex P xs"
  by (induction xs) (auto simp: Let_def)

lemma findIndex_first_at: "findIndex P xs = int i \<longleftrightarrow> first_at P xs i"
proof (induction xs arbitrary: i)
  case Nil
  show ?case by (simp add: first_at_def)
next
  case (Cons x xs)
  show ?case
  proof (cases "P x")
    case True
    then show ?thesis by (cases i) (auto simp: first_at_def)
  next
    case False
    show ?thesis
    proof (cases i)
      case 0
      with False findIndex_ge [of P xs] show ?thesis
        by (auto simp: first_at_def Let_def)
    next
      case (Suc k)
      have "first_at P (x # xs) (Suc k) \<longleftrightarrow> first_at P xs k"
        using False by (auto simp: first_at_def less_Suc_eq_0_disj)
      moreover have "findIndex P (x # xs) = int (Suc k) \<longleftrightarrow> findIndex P xs = int k"
        using False findIndex_ge [of P xs] by (auto simp: Let_def)
      ultimately show ?thesis using Cons.IH [of k] Suc by simp
    qed
  qed
qed

lemma filter_indexed_nth:
  "map snd (filter (\<lambda>(i, x). Q i x) (enumerate 0 xs))
     = map ((!) xs) (filter (\<lambda>i. Q i (xs ! i)) [0..<length xs])"
proof (induction xs rule: rev_induct)
  case Nil
  show ?case by simp
next
  case (snoc x xs)
  have a: "filter (\<lambda>i. Q i ((xs @ [x]) ! i)) [0..<length xs] = filter (\<lambda>i. Q i (xs ! i)) [0..<length xs]"
    by (rule filter_cong) (auto simp: nth_append)
  have b: "map ((!) (xs @ [x])) (filter (\<lambda>i. Q i (xs ! i)) [0..<length xs])
         = map ((!) xs) (filter (\<lambda>i. Q i (xs ! i)) [0..<length xs])"
    by (rule map_cong) (auto simp: nth_append)
  show ?case
    using snoc.IH by (simp add: enumerate_append_eq a b)
qed


lemma mergeFetched_keep_first: "mergeFetched prev data = keep_first (prev @ data)"
proof -
  have "filter_indexed (\<lambda>file index self. int index = findIndex (\<lambda>f. rpath f = rpath file) self) xs
        = keep_first xs" for xs :: "RemoteFile list"
  proof -
    have "filter_indexed (\<lambda>file index self. int index = findIndex (\<lambda>f. rpath f = rpath file) self) xs
        = map snd (filter (\<lambda>(i, x). first_at (\<lambda>f. rpath f = rpath x) xs i) (enumerate 0 xs))"
      unfolding filter_indexed_def
      by (simp add: findIndex_first_at eq_commute [of "int _"])
    also have "\<dots> = map ((!) xs) (filter (\<lambda>i. first_at (\<lambda>f. rpath f = rpath (xs ! i)) xs i) [0..<length xs])"
      by (rule filter_indexed_nth)
    finally show ?thesis by (simp add: first_here_def [abs_def] keep_first_def)
  qed
  then show ?thesis by (simp add: mergeFetched_def Let_def)
qed

lemma first_here_unique:
  "first_here xs i \<Longrightarrow> first_here xs j \<Longrightarrow> rpath (xs ! i) = rpath (xs ! j) \<Longrightarrow> i = j"
  unfolding first_here_def first_at_def
  by (metis linorder_neqE_nat)

lemma keep_first_distinct: "distinct (map rpath (keep_first xs))"
proof -
  have "inj_on (\<lambda>i. rpath (xs ! i)) (set (filter (first_here xs) [0..<length xs]))"
    by (rule inj_onI) (auto dest: first_here_unique)
  then show ?thesis
    unfolding keep_first_def by (simp add: distinct_map comp_def)
qed

lemma keep_first_subset: "set (keep_first xs) \<subseteq> set xs"
  unfolding keep_first_def by auto

lemma first_in_keep_first:
  assumes "first_at (\<lambda>f. rpath f = p) xs i"
  shows "xs ! i \<in> set (keep_first xs)"
proof -
  from assms have "first_here xs i" and "i < length xs"
    by (auto simp: first_here_def first_at_def)
  then show ?thesis unfolding keep_first_def by auto
qed

lemma find_distinct_key:
  "distinct (map f ys) \<Longrightarrow> x \<in> set ys \<Longrightarrow> find (\<lambda>y. f y = f x) ys = Some x"
  by (induction ys) (auto simp: image_iff)

lemma keep_first_find:
  "find (\<lambda>f. rpath f = p) (keep_first xs) = find (\<lambda>f. rpath f = p) xs"
proof (cases "find (\<lambda>f. rpath f = p) xs")
  case None
  then have "\<forall>x \<in> set xs. rpath x \<noteq> p"
    by (auto simp: find_None_iff)
  with keep_first_subset [of xs]
  have "\<forall>x \<in> set (keep_first xs). rpath x \<noteq> p" by blast
  then have "find (\<lambda>f. rpath f = p) (keep_first xs) = None"
    by (auto simp: find_None_iff)
  with None show ?thesis by simp
next
  case (Some x)
  then obtain i where i: "first_at (\<lambda>f. rpath f = p) xs i" and x: "x = xs ! i"
    by (auto simp: find_Some_iff first_at_def)
  have px: "rpath x = p" using i x by (simp add: first_at_def)
  have "x \<in> set (keep_first xs)"
    using first_in_keep_first [OF i] x by simp
  with keep_first_distinct [of xs]
  have "find (\<lambda>y. rpath y = rpath x) (keep_first xs) = Some x"
    by (rule find_distinct_key)
  with Some px show ?thesis by simp
qed

lemma find_append_case:
  "find P (xs @ ys) = (case find P xs of Some x \<Rightarrow> Some x | None \<Rightarrow> find P ys)"
  by (induction xs) auto

lemma keep_first_paths: "rpath ` set (keep_first xs) = rpath ` set xs"
proof
  show "rpath ` set (keep_first xs) \<subseteq> rpath ` set xs"
    using keep_first_subset [of xs] by blast
  show "rpath ` set xs \<subseteq> rpath ` set (keep_first xs)"
  proof
    fix p assume "p \<in> rpath ` set xs"
    then have "find (\<lambda>f. rpath f = p) xs \<noteq> None"
      by (auto simp: find_None_iff)
    then obtain y where "find (\<lambda>f. rpath f = p) (keep_first xs) = Some y"
      by (auto simp: keep_first_find)
    then have "y \<in> set (keep_first xs) \<and> rpath y = p"
      by (auto simp: find_Some_iff)
    then show "p \<in> rpath ` set (keep_first xs)" by blast
  qed
qed

subsection \<open>Merging keeps the first entry of a path\<close>

text \<open>
  The claim C4 at a concrete input: \<open>/x\<close> was seen as a file and is fetched again as a
  directory. The merged list keeps the entry seen before, and not the one newly fetched.
\<close>

theorem mergeFetched_keeps_previous_entry:
  "mergeFetched [\<lparr>rtype = TypeFile, rname = ''x'', rpath = ''/x''\<rparr>]
                [\<lparr>rtype = TypeDir, rname = ''x'', rpath = ''/x''\<rparr>]
     = [\<lparr>rtype = TypeFile, rname = ''x'', rpath = ''/x''\<rparr>]"
  by (simp add: mergeFetched_def filter_indexed_def Let_def enumerate_eq_zip)

text \<open>
  C4, as the code has it. The merged list holds no two entries with the same path, and
  its paths are those of the entries seen before and of the entries fetched. The entry
  it holds for a path is the first one in the order "seen before, then fetched": an entry
  seen before wins over a newly fetched one with the same path. On the tree
  \<open>{a/, a/x.txt, b.txt}\<close>, fetching \<open>a\<close> after the root gives the three entries, and
  fetching \<open>a\<close> once more changes nothing.
\<close>

theorem mergeFetched_first_entry_wins:
  "distinct (map rpath (mergeFetched prev data))
   \<and> rpath ` set (mergeFetched prev data) = rpath ` set prev \<union> rpath ` set data
   \<and> find (\<lambda>f. rpath f = p) (mergeFetched prev data)
       = (case find (\<lambda>f. rpath f = p) prev of
            Some f \<Rightarrow> Some f
          | None \<Rightarrow> find (\<lambda>f. rpath f = p) data)
   \<and> mergeFetched root_listing a_listing = root_listing @ a_listing
   \<and> mergeFetched (mergeFetched root_listing a_listing) a_listing = root_listing @ a_listing"
proof -
  have "rpath ` set (mergeFetched prev data) = rpath ` set prev \<union> rpath ` set data"
    using keep_first_paths [of "prev @ data"] by (simp add: mergeFetched_keep_first image_Un)
  moreover have "mergeFetched root_listing a_listing = root_listing @ a_listing"
    by (simp add: mergeFetched_def filter_indexed_def root_listing_def a_listing_def Let_def
        enumerate_eq_zip)
  moreover have "mergeFetched (root_listing @ a_listing) a_listing = root_listing @ a_listing"
    by (simp add: mergeFetched_def filter_indexed_def root_listing_def a_listing_def Let_def
        enumerate_eq_zip)
  ultimately show ?thesis
    by (simp add: mergeFetched_keep_first keep_first_distinct keep_first_find find_append_case)
qed

section \<open>The editor's file tree (frontend, utils/file-manager.tsx)\<close>

text \<open>
  \<^verbatim>\<open>enum Type { FILE, DIRECTORY, DUMMY }\<close> and the \<^verbatim>\<open>CommonProps\<close> interface that
  \<^verbatim>\<open>File\<close> and \<^verbatim>\<open>Directory\<close> share. A \<^verbatim>\<open>Directory\<close> adds the arrays \<^verbatim>\<open>files\<close> and
  \<^verbatim>\<open>dirs\<close>. A field that may be \<^verbatim>\<open>undefined\<close> is an option.
\<close>

datatype Type = FILE | DIRECTORY | DUMMY

record File =
  id :: string
  type :: Type
  name :: string
  content :: "string option"
  path :: string
  parentId :: "string option"
  depth :: nat

datatype Directory = Directory (props: File) (files: "File list") (dirs: "Directory list")

subsection \<open>findFileByName\<close>

text \<open>
  The source keeps the result in the captured variable \<^verbatim>\<open>targetFile\<close>, which the inner
  function \<^verbatim>\<open>findFile\<close> assigns. Here the variable is threaded through: \<open>findFile\<close>
  takes its value and returns the new one. The \<^verbatim>\<open>return\<close> inside the \<^verbatim>\<open>forEach\<close>
  callback only leaves the callback for that one element, so the iteration goes on;
  both \<^verbatim>\<open>forEach\<close> loops are folds from the left.
\<close>

fun findFile :: "Directory \<Rightarrow> string \<Rightarrow> File option \<Rightarrow> File option" where
  "findFile (Directory p fs ds) filename targetFile =
     fold (\<lambda>dir t. findFile dir filename t) ds
       (fold (\<lambda>file t. if name file = filename then Some file else t) fs targetFile)"

definition findFileByName :: "Directory \<Rightarrow> string \<Rightarrow> File option" where
  "findFileByName rootDir filename = findFile rootDir filename None"

text \<open>
  The order in which \<open>findFile\<close> meets the files of a tree: the files of a directory in
  array order, then each subdirectory in array order, recursively.
\<close>

fun traversal :: "Directory \<Rightarrow> File list" where
  "traversal (Directory p fs ds) = fs @ concat (map traversal ds)"

definition matches :: "Directory \<Rightarrow> string \<Rightarrow> File list" where
  "matches rootDir filename = filter (\<lambda>file. name file = filename) (traversal rootDir)"

definition last_or :: "'a option \<Rightarrow> 'a list \<Rightarrow> 'a option" where
  "last_or t ms = (if ms = [] then t else Some (last ms))"

lemma last_or_append: "last_or t (xs @ ys) = last_or (last_or t xs) ys"
  by (simp add: last_or_def)

lemma fold_files_last_or:
  "fold (\<lambda>file t. if name file = filename then Some file else t) fs t
     = last_or t (filter (\<lambda>file. name file = filename) fs)"
proof (induction fs arbitrary: t)
  case Nil
  show ?case by (simp add: last_or_def)
next
  case (Cons f fs)
  show ?case by (simp add: Cons.IH last_or_def)
qed

lemma fold_dirs_last_or:
  assumes "\<And>d t. d \<in> set ds \<Longrightarrow> g d t = last_or t (filter P (traversal d))"
  shows "fold g ds t = last_or t (filter P (concat (map traversal ds)))"
  using assms
proof (induction ds arbitrary: t)
  case Nil
  show ?case by (simp add: last_or_def)
next
  case (Cons d ds)
  have step: "g d t = last_or t (filter P (traversal d))"
    by (rule Cons.prems) simp
  have rest: "fold g ds (g d t) = last_or (g d t) (filter P (concat (map traversal ds)))"
    by (rule Cons.IH) (simp add: Cons.prems)
  show ?case using rest by (simp add: step last_or_append)
qed

lemma findFile_last_or:
  "findFile d filename t = last_or t (filter (\<lambda>file. name file = filename) (traversal d))"
proof (induction d filename t rule: findFile.induct)
  case (1 p fs ds filename targetFile)
  have "fold (\<lambda>dir t. findFile dir filename t) ds
          (fold (\<lambda>file t. if name file = filename then Some file else t) fs targetFile)
        = last_or (fold (\<lambda>file t. if name file = filename then Some file else t) fs targetFile)
            (filter (\<lambda>file. name file = filename) (concat (map traversal ds)))"
    by (rule fold_dirs_last_or) (rule "1.IH")
  then show ?case
    by (simp add: fold_files_last_or last_or_append)
qed

text \<open>
  C9. \<open>findFileByName\<close> does not stop at the first match. It returns the file met last
  in the traversal order among those that carry the searched name (and \<^verbatim>\<open>undefined\<close>
  when there is none). So in a tree where two or more files carry the name, the result
  is the last match; it is the first match only where the two are the same value.
\<close>

theorem findFileByName_returns_last_match:
  "findFileByName rootDir filename =
     (if matches rootDir filename = [] then None else Some (last (matches rootDir filename)))
   \<and> (2 \<le> length (matches rootDir filename) \<longrightarrow>
        findFileByName rootDir filename = Some (last (matches rootDir filename))
        \<and> (hd (matches rootDir filename) \<noteq> last (matches rootDir filename) \<longrightarrow>
             findFileByName rootDir filename \<noteq> Some (hd (matches rootDir filename))))"
proof -
  have eq: "findFileByName rootDir filename =
     (if matches rootDir filename = [] then None else Some (last (matches rootDir filename)))"
    by (simp add: findFileByName_def findFile_last_or matches_def last_or_def)
  have "matches rootDir filename \<noteq> []" if "2 \<le> length (matches rootDir filename)"
    using that by auto
  with eq show ?thesis by auto
qed

text \<open>
  A tree with the name \<open>index.js\<close> at the root and again in the directory \<open>/src\<close>: the
  search returns the file of \<open>/src\<close>, met last, and not the one at the root.
\<close>

definition file_at :: "string \<Rightarrow> string \<Rightarrow> string option \<Rightarrow> nat \<Rightarrow> File" where
  "file_at p n par d =
     \<lparr>id = p, type = FILE, name = n, content = None, path = p, parentId = par, depth = d\<rparr>"

definition dir_at :: "string \<Rightarrow> string \<Rightarrow> string option \<Rightarrow> nat \<Rightarrow> File" where
  "dir_at p n par d =
     \<lparr>id = p, type = DIRECTORY, name = n, content = None, path = p, parentId = par, depth = d\<rparr>"

definition two_index_tree :: Directory where
  "two_index_tree =
     Directory (dir_at [] ''root'' None 0)
       [file_at ''/index.js'' ''index.js'' (Some ''0'') 1]
       [Directory (dir_at ''/src'' ''src'' (Some ''0'') 1)
          [file_at ''/src/index.js'' ''index.js'' (Some ''/src'') 2] []]"

lemma matches_two_index_tree:
  "matches two_index_tree ''index.js'' =
     [file_at ''/index.js'' ''index.js'' (Some ''0'') 1,
      file_at ''/src/index.js'' ''index.js'' (Some ''/src'') 2]"
  by (simp add: matches_def two_index_tree_def file_at_def)

theorem findFileByName_returns_last_match_witness:
  "2 \<le> length (matches two_index_tree ''index.js'')
   \<and> hd (matches two_index_tree ''index.js'') \<noteq> last (matches two_index_tree ''index.js'')
   \<and> findFileByName two_index_tree ''index.js''
        = Some (file_at ''/src/index.js'' ''index.js'' (Some ''/src'') 2)
   \<and> findFileByName two_index_tree ''index.js''
        \<noteq> Some (file_at ''/index.js'' ''index.js'' (Some ''0'') 1)"
proof -
  have ne: "hd (matches two_index_tree ''index.js'') \<noteq> last (matches two_index_tree ''index.js'')"
    by (simp add: matches_two_index_tree file_at_def)
  have len: "2 \<le> length (matches two_index_tree ''index.js'')"
    by (simp add: matches_two_index_tree)
  from findFileByName_returns_last_match [of two_index_tree "''index.js''"] len ne
  show ?thesis by (simp add: matches_two_index_tree)
qed

subsection \<open>buildFileTree\<close>

text \<open>
  \<^verbatim>\<open>item.path.split("/")\<close> and \<^verbatim>\<open>.join("/")\<close>. Splitting gives one more segment than
  the string has separators: the empty string has the one segment \<open>[]\<close>, and \<open>/a\<close> has
  the two segments \<open>[]\<close> and \<open>a\<close>.
\<close>

fun split_on :: "char \<Rightarrow> string \<Rightarrow> string list" where
  "split_on c [] = [[]]"
| "split_on c (x # xs) =
     (if x = c then [] # split_on c xs
      else (case split_on c xs of [] \<Rightarrow> [[x]] | w # ws \<Rightarrow> (x # w) # ws))"

fun join_with :: "char \<Rightarrow> string list \<Rightarrow> string" where
  "join_with c [] = []"
| "join_with c [w] = w"
| "join_with c (w # v # ws) = w @ c # join_with c (v # ws)"

text \<open>
  The parent path of the source: \<^verbatim>\<open>item.path.split("/").slice(0, -1).join("/")\<close>.
\<close>

definition segments :: "string \<Rightarrow> string list" where
  "segments p = split_on CHR ''/'' p"

definition parent_path :: "string \<Rightarrow> string" where
  "parent_path p = join_with CHR ''/'' (butlast (segments p))"

text \<open>
  \<open>buildFileTree\<close> makes one object for every entry, keeps the objects in the map
  \<^verbatim>\<open>cache\<close> under their id (the path), and then pushes each object into the array
  \<^verbatim>\<open>files\<close> or \<^verbatim>\<open>dirs\<close> of its parent. The arrays so share the objects of the cache;
  here an array holds the ids of its objects, and the object of an id is looked up in the
  cache. A \<^verbatim>\<open>Directory\<close> object carries the two arrays, a \<^verbatim>\<open>File\<close> object does not have
  them. The cache is an association list in the order of first insertion, as a JavaScript
  \<^verbatim>\<open>Map\<close> is; \<open>AList.update\<close> replaces the value of a key that is present and keeps its
  place.
\<close>

record DirObject =
  dprops :: File
  file_ids :: "string list"
  dir_ids :: "string list"

datatype object = FileObj File | DirObj DirObject

type_synonym cache = "(string \<times> object) list"

definition props_of :: "object \<Rightarrow> File" where
  "props_of v = (case v of FileObj f \<Rightarrow> f | DirObj d \<Rightarrow> dprops d)"

text \<open>
  \<^verbatim>\<open>
  parentId: item.path.split("/").length === 2 ? "0"
          : dirs.find(x => x.path === item.path.split("/").slice(0, -1).join("/"))?.path
  \<close>
\<close>

definition parentId_of :: "RemoteFile list \<Rightarrow> RemoteFile \<Rightarrow> string option" where
  "parentId_of ds item =
     (if length (segments (rpath item)) = 2 then Some ''0''
      else map_option rpath (find (\<lambda>x. rpath x = parent_path (rpath item)) ds))"

text \<open>The objects made by \<^verbatim>\<open>dirs.forEach\<close> and \<^verbatim>\<open>files.forEach\<close>, and the initial \<^verbatim>\<open>rootDir\<close>.\<close>

definition new_dir :: "RemoteFile list \<Rightarrow> RemoteFile \<Rightarrow> object" where
  "new_dir ds item =
     DirObj \<lparr>dprops = \<lparr>id = rpath item, type = DIRECTORY, name = rname item, content = None,
                        path = rpath item, parentId = parentId_of ds item, depth = 0\<rparr>,
             file_ids = [], dir_ids = []\<rparr>"

definition new_file :: "RemoteFile list \<Rightarrow> RemoteFile \<Rightarrow> object" where
  "new_file ds item =
     FileObj \<lparr>id = rpath item, type = FILE, name = rname item, content = None,
              path = rpath item, parentId = parentId_of ds item, depth = 0\<rparr>"

definition rootDir_new :: DirObject where
  "rootDir_new =
     \<lparr>dprops = \<lparr>id = ''root'', type = DIRECTORY, name = ''root'', content = None, path = [],
                parentId = None, depth = 0\<rparr>,
      file_ids = [], dir_ids = []\<rparr>"

text \<open>
  The cache after the two loops: first the directories, then the files, each
  \<^verbatim>\<open>cache.set(id, object)\<close>.
\<close>

definition build_cache :: "RemoteFile list \<Rightarrow> cache" where
  "build_cache data =
     (let ds = filter (\<lambda>x. rtype x = TypeDir) data;
          fs = filter (\<lambda>x. rtype x = TypeFile) data;
          cache0 = fold (\<lambda>item c. AList.update (rpath item) (new_dir ds item) c) ds []
      in fold (\<lambda>item c. AList.update (rpath item) (new_file ds item) c) fs cache0)"

text \<open>
  The linking pass, \<^verbatim>\<open>cache.forEach((value) => { ... })\<close>. For a value whose
  \<^verbatim>\<open>parentId\<close> is not \<^verbatim>\<open>"0"\<close>, \<^verbatim>\<open>cache.get(value.parentId)\<close> is dereferenced without
  a check: when it is \<^verbatim>\<open>undefined\<close>, reading its \<^verbatim>\<open>dirs\<close> or \<^verbatim>\<open>files\<close> throws a
  \<^verbatim>\<open>TypeError\<close>; when it is a \<^verbatim>\<open>File\<close> object, the array is \<^verbatim>\<open>undefined\<close> and the call of
  \<^verbatim>\<open>push\<close> throws one. The callback reads only \<^verbatim>\<open>parentId\<close>, \<^verbatim>\<open>type\<close> and the identity
  of the value, which the pass does not change.
\<close>

definition push :: "File \<Rightarrow> DirObject \<Rightarrow> DirObject" where
  "push v d =
     (if type v = DIRECTORY then d\<lparr>dir_ids := dir_ids d @ [id v]\<rparr>
      else d\<lparr>file_ids := file_ids d @ [id v]\<rparr>)"

definition link_value :: "File \<Rightarrow> DirObject \<times> cache \<Rightarrow> thrown + DirObject \<times> cache" where
  "link_value v rc =
     (case rc of (rootDir, c) \<Rightarrow>
        if parentId v = Some ''0'' then Inr (push v rootDir, c)
        else
          (case parentId v of
             None \<Rightarrow> Inl TypeError
           | Some pid \<Rightarrow>
               (case map_of c pid of
                  None \<Rightarrow> Inl TypeError
                | Some (FileObj f) \<Rightarrow> Inl TypeError
                | Some (DirObj parentDir) \<Rightarrow>
                    Inr (rootDir, AList.update pid (DirObj (push v parentDir)) c))))"

fun link_all :: "File list \<Rightarrow> DirObject \<times> cache \<Rightarrow> thrown + DirObject \<times> cache" where
  "link_all [] rc = Inr rc"
| "link_all (v # vs) rc =
     (case link_value v rc of Inl err \<Rightarrow> Inl err | Inr rc' \<Rightarrow> link_all vs rc')"

text \<open>\<open>buildFileTree\<close> up to the end of the linking pass.\<close>

definition link_tree :: "RemoteFile list \<Rightarrow> thrown + DirObject \<times> cache" where
  "link_tree data =
     (let c = build_cache data in link_all (map (props_of \<circ> snd) c) (rootDir_new, c))"

text \<open>
  A value can be linked when its parent is the root or a \<^verbatim>\<open>Directory\<close> object of the
  cache. Linking changes no key of the cache and no kind of object, so whether the pass
  completes is decided by the cache it starts from.
\<close>

definition is_dir :: "cache \<Rightarrow> string \<Rightarrow> bool" where
  "is_dir c p = (\<exists>d. map_of c p = Some (DirObj d))"

definition linkable :: "cache \<Rightarrow> File \<Rightarrow> bool" where
  "linkable c v = (parentId v = Some ''0'' \<or> (\<exists>p. parentId v = Some p \<and> is_dir c p))"

lemma link_value_error: "\<not> linkable c v \<Longrightarrow> link_value v (r, c) = Inl TypeError"
  by (auto simp: linkable_def is_dir_def link_value_def split: option.splits object.splits)

lemma link_value_ok:
  assumes "linkable c v"
  shows "\<exists>r' c'. link_value v (r, c) = Inr (r', c') \<and> (\<forall>p. is_dir c' p = is_dir c p)"
proof (cases "parentId v = Some ''0''")
  case True
  then show ?thesis by (simp add: link_value_def)
next
  case False
  with assms obtain p d where p: "parentId v = Some p" "map_of c p = Some (DirObj d)"
    by (auto simp: linkable_def is_dir_def)
  with False have "link_value v (r, c) = Inr (r, AList.update p (DirObj (push v d)) c)"
    by (simp add: link_value_def)
  moreover have "is_dir (AList.update p (DirObj (push v d)) c) q = is_dir c q" for q
    using p by (auto simp: is_dir_def update_conv')
  ultimately show ?thesis by blast
qed

lemma linkable_cong: "(\<forall>p. is_dir c' p = is_dir c p) \<Longrightarrow> linkable c' v = linkable c v"
  by (simp add: linkable_def)

lemma link_all_ok:
  "\<not> isl (link_all vs (r, c)) \<longleftrightarrow> (\<forall>v \<in> set vs. linkable c v)"
proof (induction vs arbitrary: r c)
  case Nil
  show ?case by simp
next
  case (Cons v vs)
  show ?case
  proof (cases "linkable c v")
    case False
    then show ?thesis by (auto simp: link_value_error)
  next
    case True
    from link_value_ok [OF True, of r] obtain r' c'
      where step: "link_value v (r, c) = Inr (r', c')" and same: "\<forall>p. is_dir c' p = is_dir c p"
      by blast
    have "(\<forall>v \<in> set vs. linkable c' v) = (\<forall>v \<in> set vs. linkable c v)"
      using linkable_cong [OF same] by simp
    with Cons.IH [of r' c'] True step show ?thesis by simp
  qed
qed

lemma link_all_error:
  "link_all vs rc = Inl err \<Longrightarrow> err = TypeError"
proof (induction vs arbitrary: rc)
  case Nil
  then show ?case by simp
next
  case (Cons v vs)
  obtain r c where rc: "rc = (r, c)" by (cases rc)
  show ?case
  proof (cases "linkable c v")
    case False
    with Cons.prems rc show ?thesis by (simp add: link_value_error)
  next
    case True
    from link_value_ok [OF True, of r] obtain r' c'
      where step: "link_value v (r, c) = Inr (r', c')" by blast
    with Cons.prems rc have "link_all vs (r', c') = Inl err" by simp
    then show ?thesis by (rule Cons.IH)
  qed
qed


lemma join_with_singleton_char:
  "join_with c ws = [x] \<Longrightarrow> x \<noteq> c \<Longrightarrow> ws = [[x]]"
proof (cases ws)
  case Nil
  assume "join_with c ws = [x]"
  with Nil show ?thesis by simp
next
  case (Cons w ws')
  assume j: "join_with c ws = [x]" and ne: "x \<noteq> c"
  show ?thesis
  proof (cases ws')
    case Nil
    with Cons j show ?thesis by simp
  next
    case (Cons v ws'')
    with \<open>ws = w # ws'\<close> j ne show ?thesis
      by (auto simp: append_eq_Cons_conv)
  qed
qed

lemma parent_path_not_root_marker:
  assumes "length (segments p) \<noteq> 2"
  shows "parent_path p \<noteq> ''0''"
proof
  assume "parent_path p = ''0''"
  then have "butlast (segments p) = [''0'']"
    unfolding parent_path_def by (rule join_with_singleton_char) simp
  then have "length (butlast (segments p)) = 1" by simp
  then have "length (segments p) = 2" by simp
  with assms show False by simp
qed


text \<open>The object that the cache holds for a path: the last file entry with that path, or else the last directory entry.\<close>

definition lookup_last :: "RemoteFile list \<Rightarrow> string \<Rightarrow> RemoteFile option" where
  "lookup_last xs p = find (\<lambda>x. rpath x = p) (rev xs)"

lemma lookup_last_None: "lookup_last xs p = None \<longleftrightarrow> p \<notin> rpath ` set xs"
  by (auto simp: lookup_last_def find_None_iff)

lemma find_SomeD: "find P xs = Some y \<Longrightarrow> P y \<and> y \<in> set xs"
  by (induction xs) (auto split: if_splits)

lemma lookup_last_Some: "lookup_last xs p = Some y \<Longrightarrow> rpath y = p \<and> y \<in> set xs"
  unfolding lookup_last_def by (drule find_SomeD) simp

definition cached :: "RemoteFile list \<Rightarrow> RemoteFile list \<Rightarrow> string \<Rightarrow> object option" where
  "cached ds fs p =
     (case lookup_last fs p of
        Some f \<Rightarrow> Some (new_file ds f)
      | None \<Rightarrow>
          (case lookup_last ds p of
             Some d \<Rightarrow> Some (new_dir ds d)
           | None \<Rightarrow> None))"

lemma fold_update_map_of:
  "map_of (fold (\<lambda>item c. AList.update (rpath item) (g item) c) xs c0) p
     = (case lookup_last xs p of
          Some x \<Rightarrow> Some (g x)
        | None \<Rightarrow> map_of c0 p)"
proof (induction xs arbitrary: c0)
  case Nil
  show ?case by (simp add: lookup_last_def)
next
  case (Cons x xs)
  show ?case
    by (simp add: Cons.IH lookup_last_def find_append_case update_conv' split: option.splits)
qed

lemma fold_update_distinct:
  "distinct (map fst c0) \<Longrightarrow>
   distinct (map fst (fold (\<lambda>item c. AList.update (rpath item) (g item) c) xs c0))"
  by (induction xs arbitrary: c0) (simp_all add: distinct_update)

lemma build_cache_map_of:
  "map_of (build_cache data) p
     = cached (filter (\<lambda>x. rtype x = TypeDir) data) (filter (\<lambda>x. rtype x = TypeFile) data) p"
  by (simp add: build_cache_def Let_def fold_update_map_of cached_def split: option.splits)

lemma build_cache_distinct: "distinct (map fst (build_cache data))"
  by (simp add: build_cache_def Let_def fold_update_distinct)

lemma build_cache_mem:
  "(k, v) \<in> set (build_cache data) \<longleftrightarrow> map_of (build_cache data) k = Some v"
  using build_cache_distinct [of data] by simp

definition parentId_at :: "RemoteFile list \<Rightarrow> string \<Rightarrow> string option" where
  "parentId_at ds p =
     (if length (segments p) = 2 then Some ''0''
      else map_option rpath (find (\<lambda>x. rpath x = parent_path p) ds))"

lemma cached_cases:
  assumes "cached ds fs k = Some v"
  obtains f where "lookup_last fs k = Some f" "v = new_file ds f"
  | d where "lookup_last fs k = None" "lookup_last ds k = Some d" "v = new_dir ds d"
  using assms by (auto simp: cached_def split: option.splits)

lemma cached_props:
  assumes "cached ds fs k = Some v"
  shows "id (props_of v) = k" and "parentId (props_of v) = parentId_at ds k"
proof -
  from assms show "id (props_of v) = k"
    by (rule cached_cases) (auto simp: props_of_def new_file_def new_dir_def dest: lookup_last_Some)
  from assms show "parentId (props_of v) = parentId_at ds k"
    by (rule cached_cases)
       (auto simp: props_of_def new_file_def new_dir_def parentId_of_def parentId_at_def
             dest: lookup_last_Some)
qed

lemma cached_Some_iff:
  "(\<exists>v. cached ds fs k = Some v) \<longleftrightarrow> k \<in> rpath ` set ds \<union> rpath ` set fs"
proof (cases "lookup_last fs k")
  case None
  then show ?thesis
    using lookup_last_None [of ds k] lookup_last_None [of fs k]
    by (cases "lookup_last ds k") (auto simp: cached_def)
next
  case (Some f)
  then show ?thesis
    using lookup_last_None [of fs k] by (auto simp: cached_def)
qed

lemma cached_is_dir:
  "(\<exists>d. cached ds fs k = Some (DirObj d)) \<longleftrightarrow> k \<in> rpath ` set ds \<and> k \<notin> rpath ` set fs"
proof (cases "lookup_last fs k")
  case None
  then show ?thesis
    using lookup_last_None [of ds k] lookup_last_None [of fs k]
    by (cases "lookup_last ds k") (auto simp: cached_def new_dir_def)
next
  case (Some f)
  then show ?thesis
    using lookup_last_None [of fs k] by (auto simp: cached_def new_file_def)
qed

text \<open>
  The inputs on which the linking pass completes: every entry whose path has not exactly
  two segments has a directory entry whose path is its parent path, and no file entry
  has that path (its \<^verbatim>\<open>File\<close> object would have replaced the directory in the cache).
\<close>

definition has_parent_dir :: "RemoteFile list \<Rightarrow> string \<Rightarrow> bool" where
  "has_parent_dir data p =
     ((\<exists>d \<in> set data. rtype d = TypeDir \<and> rpath d = parent_path p)
      \<and> (\<forall>f \<in> set data. rtype f = TypeFile \<longrightarrow> rpath f \<noteq> parent_path p))"

definition linkable_input :: "RemoteFile list \<Rightarrow> bool" where
  "linkable_input data =
     (\<forall>e \<in> set data. length (segments (rpath e)) = 2 \<or> has_parent_dir data (rpath e))"

lemma has_parent_dir_iff:
  "has_parent_dir data k
     \<longleftrightarrow> parent_path k \<in> rpath ` set (filter (\<lambda>x. rtype x = TypeDir) data)
         \<and> parent_path k \<notin> rpath ` set (filter (\<lambda>x. rtype x = TypeFile) data)"
  unfolding has_parent_dir_def by (auto simp: image_iff)

lemma linkable_build_cache:
  assumes "map_of (build_cache data) k = Some v"
  shows "linkable (build_cache data) (props_of v)
           \<longleftrightarrow> length (segments k) = 2 \<or> has_parent_dir data k"
proof -
  let ?ds = "filter (\<lambda>x. rtype x = TypeDir) data"
  let ?fs = "filter (\<lambda>x. rtype x = TypeFile) data"
  from assms have c: "cached ?ds ?fs k = Some v" by (simp add: build_cache_map_of)
  note pr = cached_props(2) [OF c]
  have dir: "is_dir (build_cache data) q \<longleftrightarrow> q \<in> rpath ` set ?ds \<and> q \<notin> rpath ` set ?fs" for q
    by (simp add: is_dir_def build_cache_map_of cached_is_dir)
  show ?thesis
  proof (cases "length (segments k) = 2")
    case True
    then show ?thesis by (simp add: linkable_def pr parentId_at_def)
  next
    case False
    note ne0 = parent_path_not_root_marker [OF False]
    show ?thesis
    proof (cases "find (\<lambda>x. rpath x = parent_path k) ?ds")
      case None
      then have "parent_path k \<notin> rpath ` set ?ds"
        by (auto simp: find_None_iff)
      then have "\<not> has_parent_dir data k"
        by (simp add: has_parent_dir_iff)
      with None False show ?thesis
        by (simp add: linkable_def pr parentId_at_def)
    next
      case (Some d)
      then have d: "rpath d = parent_path k" "d \<in> set ?ds"
        by (auto dest: find_SomeD)
      then have "parent_path k \<in> rpath ` set ?ds" by force
      then have "has_parent_dir data k \<longleftrightarrow> is_dir (build_cache data) (parent_path k)"
        by (simp add: dir has_parent_dir_iff)
      with Some False d ne0 show ?thesis
        by (simp add: linkable_def pr parentId_at_def)
    qed
  qed
qed

lemma RemoteType_cases: "rtype e = TypeDir \<or> rtype e = TypeFile"
  by (cases "rtype e") simp_all

lemma build_cache_keys:
  "(\<exists>v. map_of (build_cache data) k = Some v) \<longleftrightarrow> k \<in> rpath ` set data"
proof -
  have "rpath ` set (filter (\<lambda>x. rtype x = TypeDir) data)
          \<union> rpath ` set (filter (\<lambda>x. rtype x = TypeFile) data) = rpath ` set data"
    using RemoteType_cases by auto
  then show ?thesis
    by (simp add: build_cache_map_of cached_Some_iff)
qed

lemma link_tree_ok_iff: "\<not> isl (link_tree data) \<longleftrightarrow> linkable_input data"
proof -
  let ?c = "build_cache data"
  have "\<not> isl (link_tree data) \<longleftrightarrow> (\<forall>v \<in> set (map (props_of \<circ> snd) ?c). linkable ?c v)"
    by (simp add: link_tree_def Let_def link_all_ok del: set_map)
  also have "\<dots> \<longleftrightarrow> (\<forall>k v. map_of ?c k = Some v \<longrightarrow> linkable ?c (props_of v))"
    by (auto simp: build_cache_mem [symmetric])
  also have "\<dots> \<longleftrightarrow> (\<forall>k v. map_of ?c k = Some v \<longrightarrow> length (segments k) = 2 \<or> has_parent_dir data k)"
    using linkable_build_cache [of data] by blast
  also have "\<dots> \<longleftrightarrow> (\<forall>k \<in> rpath ` set data. length (segments k) = 2 \<or> has_parent_dir data k)"
    using build_cache_keys [of data] by blast
  also have "\<dots> \<longleftrightarrow> linkable_input data"
    by (auto simp: linkable_input_def)
  finally show ?thesis .
qed

lemma link_tree_error: "\<not> linkable_input data \<Longrightarrow> link_tree data = Inl TypeError"
proof -
  assume "\<not> linkable_input data"
  then have "isl (link_tree data)" by (simp add: link_tree_ok_iff [symmetric])
  then obtain err where e: "link_tree data = Inl err" by (cases "link_tree data") auto
  then have "err = TypeError"
    unfolding link_tree_def Let_def by (rule link_all_error)
  with e show ?thesis by simp
qed












text \<open>
  \<^verbatim>\<open>getDepth(rootDir, curDepth)\<close> assigns \<^verbatim>\<open>curDepth + 1\<close> to the files and the
  directories of \<^verbatim>\<open>rootDir\<close> and descends into each directory. Its recursion follows the
  arrays of the objects, so it is given fuel: \<open>None\<close> says that the fuel ran out, and the
  fuel is one more than the number of nested calls. An id in \<^verbatim>\<open>dirs\<close> that does not denote
  a \<^verbatim>\<open>Directory\<close> object would make the nested call throw.
\<close>

definition with_depth :: "nat \<Rightarrow> object \<Rightarrow> object" where
  "with_depth n v =
     (case v of
        FileObj f \<Rightarrow> FileObj (f\<lparr>depth := n\<rparr>)
      | DirObj d \<Rightarrow> DirObj (d\<lparr>dprops := (dprops d)\<lparr>depth := n\<rparr>\<rparr>))"

definition set_depth :: "string \<Rightarrow> nat \<Rightarrow> cache \<Rightarrow> cache" where
  "set_depth k n c = AList.map_entry k (with_depth n) c"

fun getDepth :: "nat \<Rightarrow> DirObject \<Rightarrow> nat \<Rightarrow> cache \<Rightarrow> (thrown + cache) option" where
  "getDepth 0 rootDir curDepth c = None"
| "getDepth (Suc fuel) rootDir curDepth c =
     fold (\<lambda>dir r.
             case r of
               Some (Inr c1) \<Rightarrow>
                 (let c2 = set_depth dir (curDepth + 1) c1
                  in case map_of c2 dir of
                       Some (DirObj d) \<Rightarrow> getDepth fuel d (curDepth + 1) c2
                     | _ \<Rightarrow> Some (Inl TypeError))
             | _ \<Rightarrow> r)
       (dir_ids rootDir)
       (Some (Inr (fold (\<lambda>file. set_depth file (curDepth + 1)) (file_ids rootDir) c)))"

text \<open>
  \<open>buildFileTree\<close>: the linking pass, then \<^verbatim>\<open>getDepth(rootDir, 0)\<close>. The result is the
  root object with the cache that holds the objects its arrays refer to.
\<close>

definition buildFileTree :: "nat \<Rightarrow> RemoteFile list \<Rightarrow> (thrown + DirObject \<times> cache) option" where
  "buildFileTree fuel data =
     (case link_tree data of
        Inl err \<Rightarrow> Some (Inl err)
      | Inr (rootDir, c) \<Rightarrow>
          (case getDepth fuel rootDir 0 c of
             None \<Rightarrow> None
           | Some (Inl err) \<Rightarrow> Some (Inl err)
           | Some (Inr c') \<Rightarrow> Some (Inr (rootDir, c'))))"



























text \<open>
  The precondition as the claim C10 words it: every entry whose path has three or more
  segments has a directory entry in the same input whose path is its parent path.
\<close>

definition claimed_precondition :: "RemoteFile list \<Rightarrow> bool" where
  "claimed_precondition data =
     (\<forall>e \<in> set data. 3 \<le> length (segments (rpath e)) \<longrightarrow>
        (\<exists>d \<in> set data. rtype d = TypeDir \<and> rpath d = parent_path (rpath e)))"






lemma buildFileTree_throws:
  "\<not> linkable_input data \<Longrightarrow> buildFileTree fuel data = Some (Inl TypeError)"
  by (simp add: buildFileTree_def link_tree_error)



lemma segments_examples:
  "segments ''/a'' = [[], ''a'']"
  "segments ''/b.txt'' = [[], ''b.txt'']"
  "segments ''/a/x.txt'' = [[], ''a'', ''x.txt'']"
  by (simp_all add: segments_def)






text \<open>
  A file entry with the path of a directory: the \<^verbatim>\<open>File\<close> object replaces the directory
  in the cache, and linking \<open>/a/x.txt\<close> to it throws, though the directory \<open>/a\<close> is in
  the input.
\<close>

definition shadowed_dir :: "RemoteFile list" where
  "shadowed_dir =
     [\<lparr>rtype = TypeDir, rname = ''a'', rpath = ''/a''\<rparr>,
      \<lparr>rtype = TypeFile, rname = ''a'', rpath = ''/a''\<rparr>,
      \<lparr>rtype = TypeFile, rname = ''x.txt'', rpath = ''/a/x.txt''\<rparr>]"

lemma shadowed_dir_throws:
  "claimed_precondition shadowed_dir \<and> buildFileTree 3 shadowed_dir = Some (Inl TypeError)"
proof -
  have "\<not> linkable_input shadowed_dir"
    by (simp add: linkable_input_def shadowed_dir_def segments_examples has_parent_dir_def
        parent_path_def)
  moreover have "claimed_precondition shadowed_dir"
    by (simp add: claimed_precondition_def shadowed_dir_def segments_examples parent_path_def)
  ultimately show ?thesis by (simp add: buildFileTree_throws)
qed

text \<open>The tree \<open>{a/, a/x.txt, b.txt}\<close>, built.\<close>

lemma buildFileTree_tree_value:
  "buildFileTree 3 (root_listing @ a_listing) =
     Some (Inr (rootDir_new\<lparr>file_ids := [''/b.txt''], dir_ids := [''/a'']\<rparr>,
       [(''/a'', DirObj \<lparr>dprops = \<lparr>id = ''/a'', type = DIRECTORY, name = ''a'', content = None,
                                   path = ''/a'', parentId = Some ''0'', depth = 1\<rparr>,
                         file_ids = [''/a/x.txt''], dir_ids = []\<rparr>),
        (''/b.txt'', FileObj \<lparr>id = ''/b.txt'', type = FILE, name = ''b.txt'', content = None,
                             path = ''/b.txt'', parentId = Some ''0'', depth = 1\<rparr>),
        (''/a/x.txt'', FileObj \<lparr>id = ''/a/x.txt'', type = FILE, name = ''x.txt'', content = None,
                               path = ''/a/x.txt'', parentId = Some ''/a'', depth = 2\<rparr>)]))"
  by (simp add: buildFileTree_def link_tree_def build_cache_def root_listing_def a_listing_def
      new_dir_def new_file_def parentId_of_def segments_examples parent_path_def Let_def
      link_value_def push_def rootDir_new_def props_of_def set_depth_def with_depth_def
      numeral_3_eq_3)

end
